theory Spec2Isabelle
  imports Main "HOL-Library.Word" "HOL-Library.Monad_Syntax"
begin

unbundle bit_operations_syntax

section \<open>The MD5 engine of \<^verbatim>\<open>FinalProject/md5.cpp\<close>\<close>

text \<open>
  The class \<^verbatim>\<open>MD5\<close> is embedded function by function. Machine integers are
  words of their width, the object is a record of its data members, and every
  member function takes the object and returns the updated one. Behaviour that
  C++ leaves undefined (a shift by 0 or by 32 and more bits inside \<^verbatim>\<open>rotl\<close>,
  a \<^verbatim>\<open>memcpy\<close>, \<^verbatim>\<open>memset\<close> or array access outside its array, a
  read of a byte that was never written) is the value \<open>None\<close>, so that "the call
  is well defined" is the statement that the model returns \<open>Some\<close>.
\<close>

type_synonym u8 = "8 word"
type_synonym u32 = "32 word"
type_synonym u64 = "64 word"

subsection \<open>State\<close>

text \<open>
  The data members of the class, lines 178 to 181. An Isabelle name cannot end
  with an underscore, so \<^verbatim>\<open>a_\<close>, \<^verbatim>\<open>b_\<close>, \<^verbatim>\<open>c_\<close>, \<^verbatim>\<open>d_\<close> are
  \<open>acc_a\<close> to \<open>acc_d\<close> and the other members lose their last character.
  \<open>buffer\<close> is the whole 64-byte array; \<open>buffer_len\<close> is a \<^verbatim>\<open>size_t\<close>,
  modelled as a natural number (the only subtraction on it,
  \<^verbatim>\<open>64 - buffer_len_\<close>, is discussed at \<open>update\<close>).
\<close>

record md5 =
  acc_a :: u32
  acc_b :: u32
  acc_c :: u32
  acc_d :: u32
  total_len :: u64
  buffer :: "u8 list"
  buffer_len :: nat

subsection \<open>The compression step\<close>

definition F :: "u32 \<Rightarrow> u32 \<Rightarrow> u32 \<Rightarrow> u32" where
  "F x y z = (x AND y) OR (NOT x AND z)"

definition G :: "u32 \<Rightarrow> u32 \<Rightarrow> u32 \<Rightarrow> u32" where
  "G x y z = (x AND z) OR (y AND NOT z)"

definition H :: "u32 \<Rightarrow> u32 \<Rightarrow> u32 \<Rightarrow> u32" where
  "H x y z = x XOR y XOR z"

definition I :: "u32 \<Rightarrow> u32 \<Rightarrow> u32 \<Rightarrow> u32" where
  "I x y z = y XOR (x OR NOT z)"

text \<open>
  \<^verbatim>\<open>rotl(v, s) = (v << s) | (v >> (32 - s))\<close> on \<^verbatim>\<open>uint32_t\<close>. A shift of a
  32-bit value is defined for a count below 32 only; \<^verbatim>\<open>32 - s\<close> is computed in
  \<^verbatim>\<open>uint32_t\<close> and wraps.
\<close>

definition rotl :: "u32 \<Rightarrow> u32 \<Rightarrow> u32 option" where
  "rotl v s =
     (if s < 32 \<and> 32 - s < 32
      then Some (push_bit (unat s) v OR drop_bit (unat (32 - s)) v)
      else None)"

text \<open>Per-round shift amounts, lines 127 to 132.\<close>

definition S :: "u32 list" where
  "S = [7,12,17,22, 7,12,17,22, 7,12,17,22, 7,12,17,22,
        5, 9,14,20, 5, 9,14,20, 5, 9,14,20, 5, 9,14,20,
        4,11,16,23, 4,11,16,23, 4,11,16,23, 4,11,16,23,
        6,10,15,21, 6,10,15,21, 6,10,15,21, 6,10,15,21]"

text \<open>Round constants, lines 135 to 144.\<close>

definition K :: "u32 list" where
  "K = [0xd76aa478,0xe8c7b756,0x242070db,0xc1bdceee,0xf57c0faf,0x4787c62a,0xa8304613,0xfd469501,
        0x698098d8,0x8b44f7af,0xffff5bb1,0x895cd7be,0x6b901122,0xfd987193,0xa679438e,0x49b40821,
        0xf61e2562,0xc040b340,0x265e5a51,0xe9b6c7aa,0xd62f105d,0x02441453,0xd8a1e681,0xe7d3fbc8,
        0x21e1cde6,0xc33707d6,0xf4d50d87,0x455a14ed,0xa9e3e905,0xfcefa3f8,0x676f02d9,0x8d2a4c8a,
        0xfffa3942,0x8771f681,0x6d9d6122,0xfde5380c,0xa4beea44,0x4bdecfa9,0xf6bb4b60,0xbebfbc70,
        0x289b7ec6,0xeaa127fa,0xd4ef3085,0x04881d05,0xd9d4d039,0xe6db99e5,0x1fa27cf8,0xc4ac5665,
        0xf4292244,0x432aff97,0xab9423a7,0xfc93a039,0x655b59c3,0x8f0ccc92,0xffeff47d,0x85845dd1,
        0x6fa87e4f,0xfe2ce6e0,0xa3014314,0x4e0811a1,0xf7537e82,0xbd3af235,0x2ad7d2bb,0xeb86d391]"

text \<open>
  \<^verbatim>\<open>read_le32(p)\<close>: the pointer is the list of the bytes from \<^verbatim>\<open>p\<close> on.
\<close>

definition read_le32 :: "u8 list \<Rightarrow> u32" where
  "read_le32 p =
     ucast (p ! 0) OR push_bit 8 (ucast (p ! 1)) OR push_bit 16 (ucast (p ! 2))
       OR push_bit 24 (ucast (p ! 3))"

text \<open>
  The 64-round loop of \<^verbatim>\<open>transform\<close>, lines 146 to 159, with its counter
  \<^verbatim>\<open>uint32_t i\<close> and the working registers \<open>(A, B, C, D)\<close>.
\<close>

function transform_loop ::
  "u32 list \<Rightarrow> u32 \<Rightarrow> u32 \<times> u32 \<times> u32 \<times> u32 \<Rightarrow> (u32 \<times> u32 \<times> u32 \<times> u32) option" where
  "transform_loop M i (A, B, C, D) =
     (if i < 64 then
        (let (f, g) =
               (if i < 16 then (F B C D, i)
                else if i < 32 then (G B C D, (5 * i + 1) AND 15)
                else if i < 48 then (H B C D, (3 * i + 5) AND 15)
                else (I B C D, (7 * i) AND 15));
             tmp = D;
             sum = A + f + K ! unat i + M ! unat g
         in case rotl sum (S ! unat i) of
              None \<Rightarrow> None
            | Some r \<Rightarrow> transform_loop M (i + 1) (tmp, B + r, B, C))
      else Some (A, B, C, D))"
  by pat_completeness auto
termination
  apply (relation "measure (\<lambda>(M, i, r). 64 - unat i)")
   apply simp
  apply (simp add: word_less_nat_alt unat_word_ariths)
  done

text \<open>
  \<^verbatim>\<open>transform(block)\<close>, lines 111 to 162. The caller passes a pointer to at
  least 64 readable bytes; fewer is a read outside the array.
\<close>

definition transform :: "md5 \<Rightarrow> u8 list \<Rightarrow> md5 option" where
  "transform s block =
     (if length block < 64 then None
      else
        let M = map (\<lambda>i. read_le32 (drop (4 * i) block)) [0..<16] in
        case transform_loop M 0 (acc_a s, acc_b s, acc_c s, acc_d s) of
          None \<Rightarrow> None
        | Some (A, B, C, D) \<Rightarrow>
            Some (s\<lparr>acc_a := acc_a s + A, acc_b := acc_b s + B,
                    acc_c := acc_c s + C, acc_d := acc_d s + D\<rparr>))"


subsection \<open>reset and the constructor\<close>

text \<open>
  \<^verbatim>\<open>reset()\<close>, lines 15 to 23: it assigns the four accumulators and the two
  lengths and leaves the bytes of \<^verbatim>\<open>buffer_\<close> as they are.
\<close>

definition reset :: "md5 \<Rightarrow> md5" where
  "reset s = s\<lparr>acc_a := 0x67452301, acc_b := 0xefcdab89, acc_c := 0x98badcfe,
               acc_d := 0x10325476, total_len := 0, buffer_len := 0\<rparr>"

text \<open>
  The constructor \<^verbatim>\<open>MD5() { reset(); }\<close>, line 12. No member has an
  initialiser, so the object holds whatever its storage held, here the argument,
  and \<^verbatim>\<open>reset\<close> runs on it.
\<close>

definition MD5_new :: "md5 \<Rightarrow> md5" where
  "MD5_new storage = reset storage"

subsection \<open>update\<close>

text \<open>
  \<^verbatim>\<open>memcpy(dst + off, src, n)\<close> on a destination array \<open>dst\<close>: the bytes
  \<open>off\<close> to \<open>off + n - 1\<close> of \<open>dst\<close> are replaced with the first \<open>n\<close> bytes at
  \<open>src\<close>. Copying outside either array is undefined.
\<close>

definition memcpy :: "u8 list \<Rightarrow> nat \<Rightarrow> u8 list \<Rightarrow> nat \<Rightarrow> u8 list option" where
  "memcpy dst off src n =
     (if off + n \<le> length dst \<and> n \<le> length src
      then Some (take off dst @ take n src @ drop (off + n) dst)
      else None)"

text \<open>
  Lines 31 to 41 of \<^verbatim>\<open>update\<close>: complete the pending block. The input
  pointer \<^verbatim>\<open>p\<close> with its length \<^verbatim>\<open>len\<close> is the list of the bytes from
  \<^verbatim>\<open>p\<close> on. \<^verbatim>\<open>64 - buffer_len_\<close> is a \<^verbatim>\<open>size_t\<close> subtraction: from
  \<open>buffer_len = 65\<close> on it wraps in C++ and is \<open>0\<close> here, and in both the
  \<^verbatim>\<open>memcpy\<close> starts beyond the end of \<^verbatim>\<open>buffer_\<close>, which is \<open>None\<close>.
\<close>

definition update_fill :: "md5 \<Rightarrow> u8 list \<Rightarrow> (md5 \<times> u8 list) option" where
  "update_fill s p =
     (if buffer_len s > 0 then do {
        let to_copy = (if length p < 64 - buffer_len s then length p else 64 - buffer_len s);
        buf \<leftarrow> memcpy (buffer s) (buffer_len s) p to_copy;
        let s = s\<lparr>buffer := buf, buffer_len := buffer_len s + to_copy\<rparr>;
        let p = drop to_copy p;
        if buffer_len s = 64 then do {
          s \<leftarrow> transform s (buffer s);
          Some (s\<lparr>buffer_len := 0\<rparr>, p)
        } else Some (s, p)
      } else Some (s, p))"

text \<open>Lines 44 to 48: the full blocks, straight from the input.\<close>

function update_loop :: "md5 \<Rightarrow> u8 list \<Rightarrow> (md5 \<times> u8 list) option" where
  "update_loop s p =
     (if length p \<ge> 64 then
        (case transform s p of
           None \<Rightarrow> None
         | Some s' \<Rightarrow> update_loop s' (drop 64 p))
      else Some (s, p))"
  by pat_completeness auto
termination
  by (relation "measure (\<lambda>(s, p). length p)") auto

text \<open>Lines 51 to 54: keep the remainder.\<close>

definition update_store :: "md5 \<Rightarrow> u8 list \<Rightarrow> md5 option" where
  "update_store s p =
     (if length p > 0 then do {
        buf \<leftarrow> memcpy (buffer s) 0 p (length p);
        Some (s\<lparr>buffer := buf, buffer_len := length p\<rparr>)
      } else Some s)"

text \<open>
  \<^verbatim>\<open>update(data, len)\<close>, lines 26 to 55; \<open>data\<close> is the list of the \<^verbatim>\<open>len\<close>
  bytes. \<^verbatim>\<open>total_len_\<close> is a \<^verbatim>\<open>uint64_t\<close> and the addition wraps.
\<close>

definition update :: "md5 \<Rightarrow> u8 list \<Rightarrow> md5 option" where
  "update s data = do {
     let s = s\<lparr>total_len := total_len s + of_nat (length data)\<rparr>;
     (s, p) \<leftarrow> update_fill s data;
     (s, p) \<leftarrow> update_loop s p;
     update_store s p
   }"

subsection \<open>finalize\<close>

text \<open>
  The local array \<^verbatim>\<open>uint8_t pad[128]\<close> starts uninitialised: a list of 128
  cells, \<open>None\<close> for a byte never written. A store outside the array and a read
  of an unwritten cell are undefined.
\<close>

definition poke :: "u8 option list \<Rightarrow> nat \<Rightarrow> u8 \<Rightarrow> u8 option list option" where
  "poke a i v = (if i < length a then Some (a[i := Some v]) else None)"

definition memset :: "u8 option list \<Rightarrow> nat \<Rightarrow> u8 \<Rightarrow> nat \<Rightarrow> u8 option list option" where
  "memset a off v n =
     (if off + n \<le> length a
      then Some (take off a @ replicate n (Some v) @ drop (off + n) a)
      else None)"

definition peek_bytes :: "u8 option list \<Rightarrow> nat \<Rightarrow> u8 list option" where
  "peek_bytes a n = (if n \<le> length a then those (take n a) else None)"

text \<open>Lines 73 to 75: the eight bytes of \<^verbatim>\<open>bit_len\<close>, least significant first.\<close>

function finalize_loop ::
  "u64 \<Rightarrow> nat \<Rightarrow> u8 option list \<times> nat \<Rightarrow> (u8 option list \<times> nat) option" where
  "finalize_loop bit_len i (pad, pad_len) =
     (if i < 8 then
        (case poke pad pad_len (ucast (drop_bit (8 * i) bit_len AND 0xFF)) of
           None \<Rightarrow> None
         | Some pad' \<Rightarrow> finalize_loop bit_len (i + 1) (pad', pad_len + 1))
      else Some (pad, pad_len))"
  by pat_completeness auto
termination
  by (relation "measure (\<lambda>(bit_len, i, pp). 8 - i)") auto

text \<open>Lines 60 to 75: the array \<^verbatim>\<open>pad\<close> and \<^verbatim>\<open>pad_len\<close>.\<close>

definition finalize_pad :: "md5 \<Rightarrow> (u8 option list \<times> nat) option" where
  "finalize_pad s = do {
     let bit_len = total_len s * 8;
     let pad = replicate 128 None;
     let pad_len = 0;
     pad \<leftarrow> poke pad pad_len 0x80;
     let pad_len = pad_len + 1;
     let cur_mod = buffer_len s mod 64;
     let need_zeroes = (if cur_mod \<le> 56 then 56 - cur_mod else 56 + 64 - cur_mod);
     pad \<leftarrow> memset pad pad_len 0 need_zeroes;
     let pad_len = pad_len + need_zeroes;
     finalize_loop bit_len 0 (pad, pad_len)
   }"

definition write_le32 :: "u8 list \<Rightarrow> nat \<Rightarrow> u32 \<Rightarrow> u8 list" where
  "write_le32 out p v =
     out[p := ucast (v AND 0xFF),
         p + 1 := ucast (drop_bit 8 v AND 0xFF),
         p + 2 := ucast (drop_bit 16 v AND 0xFF),
         p + 3 := ucast (drop_bit 24 v AND 0xFF)]"

text \<open>
  \<^verbatim>\<open>finalize()\<close>, lines 58 to 90: the digest and the object after the call.
\<close>

definition finalize :: "md5 \<Rightarrow> (u8 list \<times> md5) option" where
  "finalize s = do {
     (pad, pad_len) \<leftarrow> finalize_pad s;
     bytes \<leftarrow> peek_bytes pad pad_len;
     s \<leftarrow> update s bytes;
     let out = replicate 16 0;
     let out = write_le32 out 0 (acc_a s);
     let out = write_le32 out 4 (acc_b s);
     let out = write_le32 out 8 (acc_c s);
     let out = write_le32 out 12 (acc_d s);
     Some (out, reset s)
   }"

subsection \<open>One-shot helpers and the hex formatter\<close>

text \<open>
  \<^verbatim>\<open>digest(data, len)\<close>, lines 93 to 95, on a fresh object \<^verbatim>\<open>m\<close> built in
  the given storage, and \<^verbatim>\<open>digest(const std::string&)\<close>, lines 96 to 98.
\<close>

definition digest :: "md5 \<Rightarrow> u8 list \<Rightarrow> u8 list option" where
  "digest storage data = do {
     let m = MD5_new storage;
     m \<leftarrow> update m data;
     (out, m) \<leftarrow> finalize m;
     Some out
   }"

definition bytes_of :: "string \<Rightarrow> u8 list" where
  "bytes_of str = map (\<lambda>c. of_nat (of_char c)) str"

definition digest_string :: "md5 \<Rightarrow> string \<Rightarrow> u8 list option" where
  "digest_string storage str = digest storage (bytes_of str)"

definition hexd :: string where
  "hexd = ''0123456789abcdef''"

text \<open>
  \<^verbatim>\<open>hex(d)\<close>, lines 99 to 107. \<^verbatim>\<open>s.resize(32)\<close> gives 32 null characters,
  then the loop stores two characters per byte.
\<close>

function hex_loop :: "u8 list \<Rightarrow> nat \<Rightarrow> string \<Rightarrow> string" where
  "hex_loop d i s =
     (if i < 16 then
        hex_loop d (i + 1)
          (s[2 * i := hexd ! unat (drop_bit 4 (d ! i) AND 0xF),
             2 * i + 1 := hexd ! unat (d ! i AND 0xF)])
      else s)"
  by pat_completeness auto
termination
  by (relation "measure (\<lambda>(d, i, s). 16 - i)") auto

definition hex :: "u8 list \<Rightarrow> string" where
  "hex d = hex_loop d 0 (replicate 32 (CHR 0x00))"

subsection \<open>Sequences of public calls\<close>

text \<open>
  A client owns one object and calls \<^verbatim>\<open>reset\<close>, \<^verbatim>\<open>update\<close> and
  \<^verbatim>\<open>finalize\<close> on it in any order. \<open>run\<close> performs the calls from left to right
  and returns the digests handed out, oldest first, with the object.
\<close>

datatype call = Reset | Update "u8 list" | Finalize

fun run :: "md5 \<Rightarrow> call list \<Rightarrow> (u8 list list \<times> md5) option" where
  "run s [] = Some ([], s)"
| "run s (Reset # cs) = run (reset s) cs"
| "run s (Update data # cs) =
     (case update s data of None \<Rightarrow> None | Some s' \<Rightarrow> run s' cs)"
| "run s (Finalize # cs) =
     (case finalize s of
        None \<Rightarrow> None
      | Some (out, s') \<Rightarrow>
          (case run s' cs of None \<Rightarrow> None | Some (outs, s'') \<Rightarrow> Some (out # outs, s'')))"


section \<open>Notions used to state the results\<close>

text \<open>
  The recursive equations of the loops are applied by hand, one step at a time.
\<close>

declare transform_loop.simps [simp del]
declare update_loop.simps [simp del]
declare finalize_loop.simps [simp del]
declare hex_loop.simps [simp del]

text \<open>
  The four accumulators of an object, and an object with them replaced.
\<close>

definition regs :: "md5 \<Rightarrow> u32 \<times> u32 \<times> u32 \<times> u32" where
  "regs s = (acc_a s, acc_b s, acc_c s, acc_d s)"

definition put_regs :: "u32 \<times> u32 \<times> u32 \<times> u32 \<Rightarrow> md5 \<Rightarrow> md5" where
  "put_regs h s = (case h of (a, b, c, d) \<Rightarrow> s\<lparr>acc_a := a, acc_b := b, acc_c := c, acc_d := d\<rparr>)"

text \<open>
  The sixteen words \<^verbatim>\<open>M\<close> that \<^verbatim>\<open>transform\<close> reads from a block, and the effect of
  \<^verbatim>\<open>transform\<close> on the accumulators alone. \<open>transform_compress\<close> below
  shows that \<^verbatim>\<open>transform\<close> is \<open>compress\<close> on every block of 64 bytes or more;
  the \<open>None\<close> branch is never taken.
\<close>

definition block_words :: "u8 list \<Rightarrow> u32 list" where
  "block_words block = map (\<lambda>i. read_le32 (drop (4 * i) block)) [0..<16]"

definition compress :: "u32 \<times> u32 \<times> u32 \<times> u32 \<Rightarrow> u8 list \<Rightarrow> u32 \<times> u32 \<times> u32 \<times> u32" where
  "compress h block =
     (case h of (a, b, c, d) \<Rightarrow>
        (case transform_loop (block_words block) 0 (a, b, c, d) of
           None \<Rightarrow> (a, b, c, d)
         | Some (A, B, C, D) \<Rightarrow> (a + A, b + B, c + C, d + D)))"

text \<open>The value rotated in round \<open>i\<close>: \<^verbatim>\<open>A + f + K[i] + M[g]\<close>.\<close>

definition round_sum :: "u32 list \<Rightarrow> u32 \<Rightarrow> u32 \<times> u32 \<times> u32 \<times> u32 \<Rightarrow> u32" where
  "round_sum M i r =
     (case r of (A, B, C, D) \<Rightarrow>
        A + (if i < 16 then F B C D else if i < 32 then G B C D
             else if i < 48 then H B C D else I B C D)
          + K ! unat i
          + M ! unat (if i < 16 then i else if i < 32 then (5 * i + 1) AND 15
                      else if i < 48 then (3 * i + 5) AND 15 else (7 * i) AND 15))"


text \<open>
  The bytes waiting in the buffer, and the class invariant: the array has its
  64 bytes and fewer than 64 of them are waiting.
\<close>

definition pending :: "md5 \<Rightarrow> u8 list" where
  "pending s = take (buffer_len s) (buffer s)"

definition well_formed :: "md5 \<Rightarrow> bool" where
  "well_formed s = (length (buffer s) = 64 \<and> buffer_len s < 64)"

text \<open>
  What a byte sequence does to the accumulators: every full block of 64 bytes is
  compressed in turn, and fewer than 64 bytes are left over.
\<close>

function absorb ::
  "u32 \<times> u32 \<times> u32 \<times> u32 \<Rightarrow> u8 list \<Rightarrow> (u32 \<times> u32 \<times> u32 \<times> u32) \<times> u8 list" where
  "absorb h xs = (if 64 \<le> length xs then absorb (compress h xs) (drop 64 xs) else (h, xs))"
  by pat_completeness auto
termination
  by (relation "measure (\<lambda>(h, xs). length xs)") auto

declare absorb.simps [simp del]

text \<open>
  The array \<^verbatim>\<open>pad\<close> once the bytes \<open>bs\<close> have been stored at its front, the
  eight bytes of the length field, the number of zero bytes \<^verbatim>\<open>finalize\<close> computes
  from \<^verbatim>\<open>buffer_len_\<close>, and the bytes it stores in \<^verbatim>\<open>pad\<close> for given
  \<^verbatim>\<open>buffer_len_\<close> and \<^verbatim>\<open>total_len_\<close>: \<open>finalize_pad_bytes\<close> below shows that
  these are the contents of \<^verbatim>\<open>pad\<close> up to \<^verbatim>\<open>pad_len\<close>.
\<close>

definition cells :: "u8 list \<Rightarrow> u8 option list" where
  "cells bs = map Some bs @ replicate (128 - length bs) None"

definition length_bytes :: "u64 \<Rightarrow> u8 list" where
  "length_bytes bit_len = map (\<lambda>i. ucast (drop_bit (8 * i) bit_len AND 0xFF)) [0..<8]"

definition need_zeroes :: "nat \<Rightarrow> nat" where
  "need_zeroes n = (if n mod 64 \<le> 56 then 56 - n mod 64 else 56 + 64 - n mod 64)"

definition pad_bytes :: "nat \<Rightarrow> u64 \<Rightarrow> u8 list" where
  "pad_bytes n w = 0x80 # replicate (need_zeroes n) 0 @ length_bytes (w * 8)"

text \<open>The sixteen bytes \<^verbatim>\<open>finalize\<close> returns for given accumulators.\<close>

definition digest_bytes :: "u32 \<times> u32 \<times> u32 \<times> u32 \<Rightarrow> u8 list" where
  "digest_bytes h =
     (case h of (a, b, c, d) \<Rightarrow>
        write_le32 (write_le32 (write_le32 (write_le32 (replicate 16 0) 0 a) 4 b) 8 c) 12 d)"

text \<open>
  The state of the engine as the specification has it: the accumulators, the
  byte count, and the pending bytes with their number. The bytes of the array
  \<^verbatim>\<open>buffer_\<close> from index \<^verbatim>\<open>buffer_len_\<close> on are left over from earlier blocks
  and are not part of it.
\<close>

definition view :: "md5 \<Rightarrow> (u32 \<times> u32 \<times> u32 \<times> u32) \<times> u64 \<times> nat \<times> u8 list" where
  "view s = (regs s, total_len s, buffer_len s, pending s)"

definition init_regs :: "u32 \<times> u32 \<times> u32 \<times> u32" where
  "init_regs = (0x67452301, 0xefcdab89, 0x98badcfe, 0x10325476)"

text \<open>Feeding the pieces of a split input through successive \<^verbatim>\<open>update\<close> calls.\<close>

fun feed :: "md5 \<Rightarrow> u8 list list \<Rightarrow> md5 option" where
  "feed s [] = Some s"
| "feed s (piece # pieces) =
     (case update s piece of None \<Rightarrow> None | Some s' \<Rightarrow> feed s' pieces)"

text \<open>
  The number of bytes passed to \<^verbatim>\<open>update\<close> since the object was last
  initialised, by the constructor, by \<^verbatim>\<open>reset\<close> or at the end of
  \<^verbatim>\<open>finalize\<close>; \<open>n\<close> is the number before the calls.
\<close>

fun raw_count :: "nat \<Rightarrow> call list \<Rightarrow> nat" where
  "raw_count n [] = n"
| "raw_count n (Reset # cs) = raw_count 0 cs"
| "raw_count n (Update data # cs) = raw_count (n + length data) cs"
| "raw_count n (Finalize # cs) = raw_count 0 cs"

text \<open>
  A storage for the examples: every byte zero. The constructor overwrites all of
  it but the 64 bytes of the buffer.
\<close>

definition zero_storage :: md5 where
  "zero_storage = \<lparr>acc_a = 0, acc_b = 0, acc_c = 0, acc_d = 0, total_len = 0,
                    buffer = replicate 64 0, buffer_len = 0\<rparr>"

text \<open>
  The two characters \<^verbatim>\<open>hex\<close> stores for one byte, and a decoder for the
  hexadecimal rendering, written from the specification ("decoding it
  byte-by-byte"): the value of one lowercase hexadecimal digit, two digits per
  byte with the most significant first, \<open>None\<close> for any other string.
\<close>

definition hex_pair :: "u8 \<Rightarrow> string" where
  "hex_pair b = [hexd ! unat (drop_bit 4 b AND 0xF), hexd ! unat (b AND 0xF)]"

definition lower_hex :: "char \<Rightarrow> bool" where
  "lower_hex c = (c \<in> set ''0123456789abcdef'')"

definition hex_value :: "char \<Rightarrow> u8 option" where
  "hex_value c =
     (let n = (of_char c :: nat) in
      if 48 \<le> n \<and> n \<le> 57 then Some (of_nat (n - 48))
      else if 97 \<le> n \<and> n \<le> 102 then Some (of_nat (n - 87))
      else None)"

fun unhex :: "string \<Rightarrow> u8 list option" where
  "unhex [] = Some []"
| "unhex [c] = None"
| "unhex (c1 # c2 # cs) =
     (case hex_value c1 of
        None \<Rightarrow> None
      | Some h \<Rightarrow>
          (case hex_value c2 of
             None \<Rightarrow> None
           | Some l \<Rightarrow>
               (case unhex cs of
                  None \<Rightarrow> None
                | Some bs \<Rightarrow> Some ((push_bit 4 h OR l) # bs))))"

section \<open>The compression step is well defined\<close>

lemma loop_unfold:
  "transform_loop M i (A, B, C, D) =
     (if i < 64 then
        (case rotl (round_sum M i (A, B, C, D)) (S ! unat i) of
              None \<Rightarrow> None
            | Some r \<Rightarrow> transform_loop M (i + 1) (D, B + r, B, C))
      else Some (A, B, C, D))"
  by (subst transform_loop.simps) (simp add: Let_def round_sum_def)

lemma S_length: "length S = 64"
  by (simp add: S_def)

lemma S_range: "list_all (\<lambda>s. 4 \<le> s \<and> s \<le> 23) S"
  by (simp add: S_def)

lemma S_nth_range: "i < 64 \<Longrightarrow> 4 \<le> S ! i \<and> S ! i \<le> 23"
  using S_range S_length by (simp add: list_all_length)

lemma shift_range: "4 \<le> s \<Longrightarrow> s \<le> 23 \<Longrightarrow> s < 32 \<and> 32 - s < (32 :: u32)"
  by unat_arith

lemma rotl_defined: "4 \<le> s \<Longrightarrow> s \<le> 23 \<Longrightarrow> rotl v s \<noteq> None"
  using shift_range [of s] by (simp add: rotl_def)

lemma unat_less_64: "(i :: u32) < 64 \<Longrightarrow> unat i < 64"
  by (simp add: word_less_nat_alt)

lemma unat_Suc_64: "(i :: u32) < 64 \<Longrightarrow> unat (i + 1) = Suc (unat i)"
  by (simp add: word_less_nat_alt unat_word_ariths)

lemma transform_loop_total_aux:
  "64 - unat i = n \<Longrightarrow> transform_loop M i (A, B, C, D) \<noteq> None"
proof (induction n arbitrary: i A B C D)
  case 0
  then have "\<not> i < 64"
    by (simp add: word_less_nat_alt)
  then show ?case
    by (subst loop_unfold) simp
next
  case (Suc n)
  then have lt: "i < 64"
    by (simp add: word_less_nat_alt)
  have "64 - unat (i + 1) = n"
    using Suc.prems unat_Suc_64 [OF lt] by simp
  note IH = Suc.IH [OF this]
  have "rotl (round_sum M i (A, B, C, D)) (S ! unat i) \<noteq> None"
    using S_nth_range [OF unat_less_64 [OF lt]] by (simp add: rotl_defined)
  then obtain r where "rotl (round_sum M i (A, B, C, D)) (S ! unat i) = Some r"
    by blast
  then show ?case
    by (subst loop_unfold) (simp add: lt IH)
qed

lemma transform_loop_total: "transform_loop M i r \<noteq> None"
  by (cases r) (simp add: transform_loop_total_aux)

lemma transform_compress:
  "64 \<le> length block \<Longrightarrow> transform s block = Some (put_regs (compress (regs s) block) s)"
proof -
  assume len: "64 \<le> length block"
  obtain A B C D where r: "transform_loop (block_words block) 0 (acc_a s, acc_b s, acc_c s, acc_d s) = Some (A, B, C, D)"
    using transform_loop_total [of "block_words block" 0 "(acc_a s, acc_b s, acc_c s, acc_d s)"]
    by (cases "transform_loop (block_words block) 0 (acc_a s, acc_b s, acc_c s, acc_d s)") auto
  have "transform s block = Some (s\<lparr>acc_a := acc_a s + A, acc_b := acc_b s + B,
                    acc_c := acc_c s + C, acc_d := acc_d s + D\<rparr>)"
    using len r by (simp add: transform_def block_words_def [symmetric])
  moreover have "compress (regs s) block = (acc_a s + A, acc_b s + B, acc_c s + C, acc_d s + D)"
    using r by (simp add: compress_def regs_def)
  ultimately show ?thesis
    by (simp add: put_regs_def)
qed

lemma take_64_nth:
  assumes "take 64 xs = take 64 ys" and "j < 64"
  shows "xs ! j = ys ! j"
proof -
  have "take 64 xs ! j = take 64 ys ! j"
    by (simp only: assms(1))
  then show ?thesis
    using assms(2) by simp
qed

lemma read_le32_nth:
  "4 * i + 3 < length xs \<Longrightarrow>
   read_le32 (drop (4 * i) xs) =
     ucast (xs ! (4 * i)) OR push_bit 8 (ucast (xs ! (4 * i + 1)))
       OR push_bit 16 (ucast (xs ! (4 * i + 2))) OR push_bit 24 (ucast (xs ! (4 * i + 3)))"
  unfolding read_le32_def by (simp only: nth_drop add_0_right)

lemma read_le32_cong:
  assumes eq: "take 64 xs = take 64 ys" and i: "i < 16" and len: "64 \<le> length xs" "64 \<le> length ys"
  shows "read_le32 (drop (4 * i) xs) = read_le32 (drop (4 * i) ys)"
proof -
  have b: "4 * i + 3 < 64" "4 * i + 2 < 64" "4 * i + 1 < 64" "4 * i < 64"
    using i by linarith+
  have "4 * i + 3 < length xs" "4 * i + 3 < length ys"
    using b len by linarith+
  then show ?thesis
    by (simp only: read_le32_nth take_64_nth [OF eq b(1)] take_64_nth [OF eq b(2)]
        take_64_nth [OF eq b(3)] take_64_nth [OF eq b(4)])
qed

lemma block_words_cong:
  assumes "take 64 xs = take 64 ys" and "64 \<le> length xs" and "64 \<le> length ys"
  shows "block_words xs = block_words ys"
  unfolding block_words_def
proof (rule map_cong [OF refl])
  fix i :: nat
  assume "i \<in> set [0..<16]"
  then have "i < 16"
    by simp
  then show "read_le32 (drop (4 * i) xs) = read_le32 (drop (4 * i) ys)"
    by (rule read_le32_cong [OF assms(1) _ assms(2) assms(3)])
qed

lemma compress_take: "64 \<le> length xs \<Longrightarrow> compress h (take 64 xs) = compress h xs"
proof -
  assume len: "64 \<le> length xs"
  have "block_words (take 64 xs) = block_words xs"
    by (rule block_words_cong) (use len in simp_all)
  then show ?thesis
    by (simp add: compress_def)
qed



text \<open>
  Claim C10. Every rotation of the compression step takes its count from the
  table \<open>S\<close>: round \<open>i\<close> calls \<^verbatim>\<open>rotl\<close> with \<open>S ! unat i\<close> and \<open>i < 64\<close>. The
  table has 64 entries, all between 4 and 23 and so between 1 and 31, for which
  both shifts of \<^verbatim>\<open>rotl\<close> are defined (\<open>rotl\<close> is \<open>None\<close> exactly when one of
  them is not). Hence the loop never meets an undefined shift, from any round
  on, for any message words and registers, and \<^verbatim>\<open>transform\<close> is defined on
  every block of at least 64 bytes.
\<close>

theorem rotl_shifts_defined:
  "length S = 64
   \<and> (\<forall>i<64. 4 \<le> S ! i \<and> S ! i \<le> 23 \<and> 1 \<le> S ! i \<and> S ! i \<le> 31)
   \<and> (\<forall>i<64. \<forall>v. rotl v (S ! i) =
          Some (push_bit (unat (S ! i)) v OR drop_bit (unat (32 - S ! i)) v))
   \<and> (\<forall>M i r. transform_loop M i r \<noteq> None)
   \<and> (\<forall>s block. 64 \<le> length block \<longrightarrow> transform s block \<noteq> None)"
proof (intro conjI allI impI)
  show "length S = 64"
    by (rule S_length)
next
  fix i :: nat
  assume i: "i < 64"
  have r: "4 \<le> S ! i" "S ! i \<le> 23"
    using S_nth_range [OF i] by simp_all
  show "4 \<le> S ! i" "S ! i \<le> 23"
    by (rule r)+
  show "1 \<le> S ! i"
    using r(1) by unat_arith
  show "S ! i \<le> 31"
    using r(2) by unat_arith
  show "rotl v (S ! i) = Some (push_bit (unat (S ! i)) v OR drop_bit (unat (32 - S ! i)) v)" for v
    using shift_range [OF r] by (simp add: rotl_def)
next
  show "transform_loop M i r \<noteq> None" for M i r
    by (rule transform_loop_total)
next
  show "transform s block \<noteq> None" if "64 \<le> length block" for s block
    using transform_compress [OF that] by simp
qed

theorem rotl_shifts_defined_witness:
  "S ! 0 = 7 \<and> 4 \<le> S ! 0 \<and> S ! 0 \<le> 23
   \<and> rotl 1 (S ! 0) = Some 128
   \<and> transform (MD5_new \<lparr>acc_a = 0, acc_b = 0, acc_c = 0, acc_d = 0, total_len = 0,
                           buffer = replicate 64 0, buffer_len = 0\<rparr>) (replicate 64 0) \<noteq> None"
proof -
  have len: "64 \<le> length (replicate 64 (0 :: u8))"
    by simp
  have "(0 :: nat) < 64"
    by simp
  with rotl_shifts_defined have "4 \<le> S ! 0 \<and> S ! 0 \<le> 23"
    and "rotl 1 (S ! 0) = Some (push_bit (unat (S ! 0)) 1 OR drop_bit (unat (32 - S ! 0)) 1)"
    by blast+
  moreover have "S ! 0 = 7"
    by (simp add: S_def)
  moreover have "transform s (replicate 64 0) \<noteq> None" for s
    using rotl_shifts_defined len by blast
  ultimately show ?thesis
    by simp
qed

section \<open>What update does\<close>

lemma regs_put_regs: "regs (put_regs h s) = h"
  by (cases h) (simp add: regs_def put_regs_def)

lemma put_regs_put_regs: "put_regs h (put_regs h' s) = put_regs h s"
  by (cases h, cases h') (simp add: put_regs_def)

lemma put_regs_fields:
  "total_len (put_regs h s) = total_len s"
  "buffer (put_regs h s) = buffer s"
  "buffer_len (put_regs h s) = buffer_len s"
  by (cases h; simp add: put_regs_def)+

lemma put_regs_regs: "put_regs (regs s) s = s"
  by (simp add: put_regs_def regs_def)

lemma absorb_short: "length xs < 64 \<Longrightarrow> absorb h xs = (h, xs)"
  by (subst absorb.simps) simp

lemma absorb_long: "64 \<le> length xs \<Longrightarrow> absorb h xs = absorb (compress h xs) (drop 64 xs)"
  by (subst absorb.simps) simp

lemma absorb_rest_length: "length (snd (absorb h xs)) < 64"
proof (induction h xs rule: absorb.induct)
  case (1 h xs)
  show ?case
  proof (cases "64 \<le> length xs")
    case True
    show ?thesis
      unfolding absorb_long [OF True] by (rule 1 [OF True])
  next
    case False
    then have "absorb h xs = (h, xs)"
      by (simp add: absorb_short)
    with False show ?thesis
      by simp
  qed
qed

lemma absorb_rest_mod: "length (snd (absorb h xs)) = length xs mod 64"
proof (induction h xs rule: absorb.induct)
  case (1 h xs)
  show ?case
  proof (cases "64 \<le> length xs")
    case True
    then have "length xs mod 64 = (length xs - 64) mod 64"
      by (rule le_mod_geq)
    then show ?thesis
      unfolding absorb_long [OF True] using 1 [OF True] by simp
  next
    case False
    then have "absorb h xs = (h, xs)"
      by (simp add: absorb_short)
    with False show ?thesis
      by simp
  qed
qed

lemma update_loop_absorb:
  "update_loop s p = Some (put_regs (fst (absorb (regs s) p)) s, snd (absorb (regs s) p))"
proof (induction "regs s" p arbitrary: s rule: absorb.induct)
  case (1 xs)
  show ?case
  proof (cases "64 \<le> length xs")
    case True
    let ?s' = "put_regs (compress (regs s) xs) s"
    have "update_loop s xs = update_loop ?s' (drop 64 xs)"
      by (subst update_loop.simps) (simp add: True transform_compress)
    also have "\<dots> = Some (put_regs (fst (absorb (regs ?s') (drop 64 xs))) ?s',
                           snd (absorb (regs ?s') (drop 64 xs)))"
      by (rule 1) (simp_all add: True regs_put_regs)
    finally show ?thesis
      unfolding absorb_long [OF True] by (simp add: regs_put_regs put_regs_put_regs)
  next
    case False
    then have "absorb (regs s) xs = (regs s, xs)"
      by (simp add: absorb_short)
    with False show ?thesis
      by (subst update_loop.simps) (simp add: put_regs_regs)
  qed
qed

lemma absorb_append:
  "absorb h (xs @ ys) = absorb (fst (absorb h xs)) (snd (absorb h xs) @ ys)"
proof (induction h xs rule: absorb.induct)
  case (1 h xs)
  show ?case
  proof (cases "64 \<le> length xs")
    case True
    then have "compress h (xs @ ys) = compress h xs"
      using compress_take [of "xs @ ys" h] compress_take [of xs h] by simp
    moreover have "64 \<le> length (xs @ ys)"
      using True by simp
    ultimately have "absorb h (xs @ ys) = absorb (compress h xs) (drop 64 xs @ ys)"
      using True by (simp add: absorb_long [of "xs @ ys"])
    then show ?thesis
      unfolding absorb_long [OF True] using 1 [OF True] by simp
  next
    case False
    then have "absorb h xs = (h, xs)"
      by (simp add: absorb_short)
    then show ?thesis
      by simp
  qed
qed

lemma pending_length: "well_formed s \<Longrightarrow> length (pending s) = buffer_len s"
  by (simp add: pending_def well_formed_def)

text \<open>The loop and the store of the remainder, from an object whose buffer is empty.\<close>

lemma update_tail:
  assumes len: "length (buffer s) = 64" and empty: "buffer_len s = 0"
  shows "\<exists>s'. (update_loop s p \<bind> (\<lambda>(s, p). update_store s p)) = Some s'
           \<and> well_formed s'
           \<and> regs s' = fst (absorb (regs s) p)
           \<and> pending s' = snd (absorb (regs s) p)
           \<and> total_len s' = total_len s"
proof -
  let ?h = "fst (absorb (regs s) p)" and ?r = "snd (absorb (regs s) p)"
  let ?s1 = "put_regs ?h s"
  have r: "length ?r < 64"
    by (rule absorb_rest_length)
  have loop: "(update_loop s p \<bind> (\<lambda>(s, p). update_store s p)) = update_store ?s1 ?r"
    by (simp add: update_loop_absorb)
  show ?thesis
  proof (cases "?r = []")
    case True
    then have "update_store ?s1 ?r = Some ?s1"
      by (simp add: update_store_def)
    moreover have "well_formed ?s1" "pending ?s1 = ?r"
      using len empty True by (simp_all add: well_formed_def pending_def put_regs_fields)
    ultimately show ?thesis
      unfolding loop by (simp add: regs_put_regs put_regs_fields)
  next
    case False
    let ?s2 = "?s1\<lparr>buffer := ?r @ drop (length ?r) (buffer s), buffer_len := length ?r\<rparr>"
    have "update_store ?s1 ?r = Some ?s2"
      using False r len by (simp add: update_store_def memcpy_def put_regs_fields)
    moreover have "well_formed ?s2"
      using r len by (simp add: well_formed_def)
    moreover have "pending ?s2 = ?r"
      by (simp add: pending_def)
    moreover have "regs ?s2 = ?h"
      using regs_put_regs [of ?h s] by (simp add: regs_def)
    moreover have "total_len ?s2 = total_len s"
      by (simp add: put_regs_fields)
    ultimately show ?thesis
      unfolding loop by blast
  qed
qed


lemma update_unfold:
  "update s data =
     (update_fill (s\<lparr>total_len := total_len s + of_nat (length data)\<rparr>) data
        \<bind> (\<lambda>(s, p). update_loop s p \<bind> (\<lambda>(s, p). update_store s p)))"
  by (simp add: update_def Let_def split_def)

lemma update_char:
  assumes wf: "well_formed s"
  shows "\<exists>s'. update s data = Some s'
           \<and> well_formed s'
           \<and> regs s' = fst (absorb (regs s) (pending s @ data))
           \<and> pending s' = snd (absorb (regs s) (pending s @ data))
           \<and> total_len s' = total_len s + of_nat (length data)"
proof -
  let ?s0 = "s\<lparr>total_len := total_len s + of_nat (length data)\<rparr>"
  let ?bl = "buffer_len s" and ?X = "pending s @ data"
  have len: "length (buffer s) = 64" and bl: "?bl < 64"
    using wf by (simp_all add: well_formed_def)
  have regs0: "regs ?s0 = regs s"
    by (simp add: regs_def)
  consider (empty) "?bl = 0" | (part) "0 < ?bl" "?bl + length data < 64"
    | (full) "0 < ?bl" "64 \<le> ?bl + length data"
    by linarith
  then show ?thesis
  proof cases
    case empty
    then have fill: "update_fill ?s0 data = Some (?s0, data)"
      by (simp add: update_fill_def)
    have X: "?X = data"
      using empty by (simp add: pending_def)
    from update_tail [of ?s0 data] len empty regs0
    show ?thesis
      unfolding update_unfold fill X by simp
  next
    case part
    let ?s1 = "?s0\<lparr>buffer := take ?bl (buffer s) @ data @ drop (?bl + length data) (buffer s),
                     buffer_len := ?bl + length data\<rparr>"
    have tc: "length data < 64 - ?bl"
      using part by linarith
    have fill: "update_fill ?s0 data = Some (?s1, [])"
      using part len by (simp add: update_fill_def memcpy_def Let_def tc)
    have loop: "update_loop ?s1 [] = Some (?s1, [])"
      by (subst update_loop.simps) simp
    have upd: "update s data = Some ?s1"
      unfolding update_unfold fill by (simp add: loop update_store_def)
    have X: "length ?X < 64"
      using part len by (simp add: pending_def)
    have "absorb (regs s) ?X = (regs s, ?X)"
      using X by (rule absorb_short)
    moreover have "well_formed ?s1"
      using part len by (simp add: well_formed_def)
    moreover have "pending ?s1 = ?X"
      using part len by (simp add: pending_def)
    moreover have "regs ?s1 = regs s"
      by (simp add: regs_def)
    ultimately show ?thesis
      unfolding upd by simp
  next
    case full
    let ?blk = "take ?bl (buffer s) @ take (64 - ?bl) data"
    let ?p = "drop (64 - ?bl) data"
    let ?s1 = "?s0\<lparr>buffer := ?blk, buffer_len := 64\<rparr>"
    let ?s2 = "(put_regs (compress (regs s) ?blk) ?s1)\<lparr>buffer_len := 0\<rparr>"
    have blk_len: "length ?blk = 64"
      using full len bl by simp
    have cpy: "memcpy (buffer s) ?bl data (64 - ?bl) = Some ?blk"
      using full len bl by (simp add: memcpy_def)
    have tr: "transform ?s1 ?blk = Some (put_regs (compress (regs s) ?blk) ?s1)"
      using transform_compress [of ?blk ?s1] blk_len by (simp add: regs_def)
    have tc: "\<not> length data < 64 - ?bl"
      using full by linarith
    have fill: "update_fill ?s0 data = Some (?s2, ?p)"
      using full bl by (simp add: update_fill_def Let_def tc cpy tr)
    have blk: "?blk = take 64 ?X"
      using full len bl by (simp add: pending_def)
    have p: "?p = drop 64 ?X"
      using full len bl by (simp add: pending_def)
    have Xlen: "64 \<le> length ?X"
      using full len bl by (simp add: pending_def)
    have "absorb (regs s) ?X = absorb (compress (regs s) ?X) (drop 64 ?X)"
      using Xlen by (rule absorb_long)
    also have "compress (regs s) ?X = compress (regs s) ?blk"
      unfolding blk using Xlen by (rule compress_take [symmetric])
    finally have ab: "absorb (regs s) ?X = absorb (compress (regs s) ?blk) ?p"
      unfolding p .
    have s2: "length (buffer ?s2) = 64" "buffer_len ?s2 = 0"
      "regs ?s2 = compress (regs s) ?blk"
      "total_len ?s2 = total_len s + of_nat (length data)"
      using blk_len regs_put_regs [of "compress (regs s) ?blk" ?s1]
      by (simp_all add: put_regs_fields regs_def)
    from update_tail [of ?s2 ?p, OF s2(1) s2(2)]
    show ?thesis
      unfolding update_unfold fill ab s2(3) s2(4) by simp
  qed
qed

(*LEMMAS*)

section \<open>What finalize does\<close>

lemma cells_length: "length bs \<le> 128 \<Longrightarrow> length (cells bs) = 128"
  by (simp add: cells_def)

lemma poke_cells:
  "length bs < 128 \<Longrightarrow> poke (cells bs) (length bs) v = Some (cells (bs @ [v]))"
proof -
  assume lt: "length bs < 128"
  then have "replicate (128 - length bs) (None :: u8 option)
               = None # replicate (128 - length (bs @ [v])) None"
    by (cases "128 - length bs") simp_all
  then show ?thesis
    using lt by (simp add: poke_def cells_def list_update_append)
qed

lemma memset_cells:
  "length bs + n \<le> 128 \<Longrightarrow>
   memset (cells bs) (length bs) v n = Some (cells (bs @ replicate n v))"
proof -
  assume le: "length bs + n \<le> 128"
  then have "drop n (replicate (128 - length bs) (None :: u8 option))
               = replicate (128 - length (bs @ replicate n v)) None"
    by simp
  then show ?thesis
    using le by (simp add: memset_def cells_def)
qed

lemma those_map_Some: "those (map Some bs) = Some bs"
  by (induction bs) simp_all

lemma peek_cells: "length bs \<le> 128 \<Longrightarrow> peek_bytes (cells bs) (length bs) = Some bs"
  by (simp add: peek_bytes_def cells_def those_map_Some)

lemma finalize_loop_cells:
  "8 - i = n \<Longrightarrow> length bs + n \<le> 128 \<Longrightarrow>
   finalize_loop bit_len i (cells bs, length bs) =
     Some (cells (bs @ map (\<lambda>i. ucast (drop_bit (8 * i) bit_len AND 0xFF)) [i..<8]),
           length bs + n)"
proof (induction n arbitrary: i bs)
  case 0
  then have "\<not> i < 8"
    by simp
  then show ?case
    by (subst finalize_loop.simps) simp
next
  case (Suc n)
  then have i: "i < 8" and n: "8 - Suc i = n"
    by simp_all
  let ?v = "ucast (drop_bit (8 * i) bit_len AND 0xFF) :: u8"
  have "length (bs @ [?v]) + n \<le> 128"
    using Suc.prems by simp
  note IH = Suc.IH [OF n this, simplified]
  have upt: "[i..<8] = i # [Suc i..<8]"
    using i by (simp add: upt_conv_Cons)
  have "length bs < 128"
    using Suc.prems by simp
  then show ?case
    by (subst finalize_loop.simps) (simp add: i poke_cells IH upt)
qed

lemma need_zeroes_le: "need_zeroes n \<le> 63"
  unfolding need_zeroes_def by (cases "n mod 64 \<le> 56") simp_all

lemma length_bytes_length: "length (length_bytes w) = 8"
  by (simp add: length_bytes_def)

lemma pad_bytes_length: "length (pad_bytes n w) = need_zeroes n + 9"
  by (simp add: pad_bytes_def length_bytes_length)

lemma finalize_pad_bytes:
  "finalize_pad s =
     Some (cells (pad_bytes (buffer_len s) (total_len s)),
           length (pad_bytes (buffer_len s) (total_len s)))"
proof -
  let ?z = "need_zeroes (buffer_len s)"
  let ?pad = "pad_bytes (buffer_len s) (total_len s)"
  have z: "?z \<le> 63"
    by (rule need_zeroes_le)
  have p: "poke (replicate 128 None) 0 0x80 = Some (cells [0x80])"
    using poke_cells [of "[]" "0x80"] by (simp add: cells_def)
  have m: "memset (cells [0x80]) (Suc 0) 0 ?z = Some (cells (0x80 # replicate ?z 0))"
    using memset_cells [of "[0x80]" ?z 0] z by simp
  have l: "finalize_loop (total_len s * 8) 0 (cells (0x80 # replicate ?z 0), Suc ?z)
             = Some (cells ?pad, length ?pad)"
    using finalize_loop_cells [of 0 8 "0x80 # replicate ?z 0" "total_len s * 8"] z
    by (simp add: pad_bytes_def length_bytes_def)
  show ?thesis
    by (simp add: finalize_pad_def Let_def p m l need_zeroes_def [symmetric])
qed

(*LEMMAS*)

lemma reset_fields:
  "regs (reset s) = init_regs" "total_len (reset s) = 0" "buffer_len (reset s) = 0"
  "buffer (reset s) = buffer s" "pending (reset s) = []"
  by (simp_all add: reset_def regs_def init_regs_def pending_def)

lemma reset_well_formed: "length (buffer s) = 64 \<Longrightarrow> well_formed (reset s)"
  by (simp add: well_formed_def reset_fields)

lemma reset_view: "view (reset s) = (init_regs, 0, 0, [])"
  by (simp add: view_def reset_fields)

lemma MD5_new_well_formed: "length (buffer storage) = 64 \<Longrightarrow> well_formed (MD5_new storage)"
  by (simp add: MD5_new_def reset_well_formed)

lemma MD5_new_view: "view (MD5_new storage) = (init_regs, 0, 0, [])"
  by (simp add: MD5_new_def reset_view)

lemma well_formed_buffer: "well_formed s \<Longrightarrow> length (buffer s) = 64"
  by (simp add: well_formed_def)

lemma pad_bytes_bound: "length (pad_bytes n w) \<le> 72"
  using need_zeroes_le [of n] by (simp add: pad_bytes_length)

lemma finalize_char:
  assumes wf: "well_formed s"
  shows "\<exists>s'. update s (pad_bytes (buffer_len s) (total_len s)) = Some s'
           \<and> well_formed s'
           \<and> regs s' = fst (absorb (regs s) (pending s @ pad_bytes (buffer_len s) (total_len s)))
           \<and> finalize s = Some (digest_bytes (regs s'), reset s')"
proof -
  let ?pad = "pad_bytes (buffer_len s) (total_len s)"
  obtain s' where s': "update s ?pad = Some s'" "well_formed s'"
    "regs s' = fst (absorb (regs s) (pending s @ ?pad))"
    using update_char [OF wf, of ?pad] by blast
  have "length ?pad \<le> 128"
    using pad_bytes_bound [of "buffer_len s" "total_len s"] by simp
  then have peek: "peek_bytes (cells ?pad) (length ?pad) = Some ?pad"
    by (rule peek_cells)
  have "finalize s = Some (digest_bytes (regs s'), reset s')"
    by (simp add: finalize_def finalize_pad_bytes peek s'(1) Let_def digest_bytes_def regs_def)
  with s' show ?thesis
    by blast
qed

lemma view_eq:
  "view s = view t \<longleftrightarrow>
     regs s = regs t \<and> total_len s = total_len t \<and> buffer_len s = buffer_len t
       \<and> pending s = pending t"
  by (simp add: view_def)

lemma update_view:
  assumes "well_formed s" and "well_formed t" and v: "view s = view t"
  shows "\<exists>s' t'. update s data = Some s' \<and> update t data = Some t'
           \<and> well_formed s' \<and> well_formed t' \<and> view s' = view t'"
proof -
  obtain s' where s': "update s data = Some s'" "well_formed s'"
    "regs s' = fst (absorb (regs s) (pending s @ data))"
    "pending s' = snd (absorb (regs s) (pending s @ data))"
    "total_len s' = total_len s + of_nat (length data)"
    using update_char [OF assms(1), of data] by blast
  obtain t' where t': "update t data = Some t'" "well_formed t'"
    "regs t' = fst (absorb (regs t) (pending t @ data))"
    "pending t' = snd (absorb (regs t) (pending t @ data))"
    "total_len t' = total_len t + of_nat (length data)"
    using update_char [OF assms(2), of data] by blast
  have "buffer_len s' = length (pending s')" "buffer_len t' = length (pending t')"
    using s'(2) t'(2) by (simp_all add: pending_length)
  then have "view s' = view t'"
    using v s'(3-5) t'(3-5) by (simp add: view_eq)
  with s' t' show ?thesis
    by blast
qed

lemma finalize_view:
  assumes "well_formed s" and "well_formed t" and v: "view s = view t"
  shows "\<exists>out s' t'. finalize s = Some (out, s') \<and> finalize t = Some (out, t')
           \<and> well_formed s' \<and> well_formed t' \<and> view s' = view t'
           \<and> view s' = (init_regs, 0, 0, [])"
proof -
  let ?pad = "pad_bytes (buffer_len s) (total_len s)"
  have pad: "pad_bytes (buffer_len t) (total_len t) = ?pad"
    using v by (simp add: view_eq)
  obtain s' where s': "update s ?pad = Some s'" "well_formed s'"
    "regs s' = fst (absorb (regs s) (pending s @ ?pad))"
    "finalize s = Some (digest_bytes (regs s'), reset s')"
    using finalize_char [OF assms(1)] by blast
  obtain t' where t': "update t ?pad = Some t'" "well_formed t'"
    "regs t' = fst (absorb (regs t) (pending t @ ?pad))"
    "finalize t = Some (digest_bytes (regs t'), reset t')"
    using finalize_char [OF assms(2)] unfolding pad by blast
  have "regs s' = regs t'"
    using v s'(3) t'(3) by (simp add: view_eq)
  moreover have "well_formed (reset s')" "well_formed (reset t')"
    using s'(2) t'(2) by (simp_all add: reset_well_formed well_formed_buffer)
  ultimately show ?thesis
    using s'(4) t'(4) by (simp add: reset_view)
qed

lemma run_view:
  assumes "well_formed s" and "well_formed t" and "view s = view t"
  shows "\<exists>outs s' t'. run s cs = Some (outs, s') \<and> run t cs = Some (outs, t')
           \<and> well_formed s' \<and> well_formed t' \<and> view s' = view t'"
  using assms
proof (induction cs arbitrary: s t)
  case Nil
  then show ?case
    by simp
next
  case (Cons c cs)
  show ?case
  proof (cases c)
    case Reset
    have "well_formed (reset s)" "well_formed (reset t)" "view (reset s) = view (reset t)"
      using Cons.prems by (simp_all add: reset_well_formed well_formed_buffer reset_view)
    from Cons.IH [OF this] show ?thesis
      by (simp add: Reset)
  next
    case (Update data)
    obtain s' t' where u: "update s data = Some s'" "update t data = Some t'"
      "well_formed s'" "well_formed t'" "view s' = view t'"
      using update_view [OF Cons.prems, of data] by blast
    from Cons.IH [OF u(3-5)] show ?thesis
      by (simp add: Update u(1,2))
  next
    case Finalize
    obtain out s' t' where f: "finalize s = Some (out, s')" "finalize t = Some (out, t')"
      "well_formed s'" "well_formed t'" "view s' = view t'"
      using finalize_view [OF Cons.prems] by blast
    from Cons.IH [OF f(3-5)] obtain outs s'' t'' where
      "run s' cs = Some (outs, s'')" "run t' cs = Some (outs, t'')"
      "well_formed s''" "well_formed t''" "view s'' = view t''"
      by blast
    then show ?thesis
      by (simp add: Finalize f(1,2))
  qed
qed

lemma run_well_formed:
  assumes "well_formed s"
  shows "\<exists>outs s'. run s cs = Some (outs, s') \<and> well_formed s'"
  using run_view [OF assms assms refl, of cs] by blast

section \<open>Several calls in a row\<close>

lemma feed_char:
  assumes "well_formed s"
  shows "\<exists>s'. feed s pieces = Some s' \<and> well_formed s'
           \<and> regs s' = fst (absorb (regs s) (pending s @ concat pieces))
           \<and> pending s' = snd (absorb (regs s) (pending s @ concat pieces))
           \<and> total_len s' = total_len s + of_nat (length (concat pieces))"
  using assms
proof (induction pieces arbitrary: s)
  case Nil
  then have "length (pending s) < 64"
    by (simp add: pending_length well_formed_def)
  then have "absorb (regs s) (pending s) = (regs s, pending s)"
    by (rule absorb_short)
  with Nil show ?case
    by simp
next
  case (Cons x xs)
  obtain s1 where s1: "update s x = Some s1" "well_formed s1"
    "regs s1 = fst (absorb (regs s) (pending s @ x))"
    "pending s1 = snd (absorb (regs s) (pending s @ x))"
    "total_len s1 = total_len s + of_nat (length x)"
    using update_char [OF Cons.prems, of x] by blast
  obtain s' where s': "feed s1 xs = Some s'" "well_formed s'"
    "regs s' = fst (absorb (regs s1) (pending s1 @ concat xs))"
    "pending s' = snd (absorb (regs s1) (pending s1 @ concat xs))"
    "total_len s' = total_len s1 + of_nat (length (concat xs))"
    using Cons.IH [OF s1(2)] by blast
  have ab: "absorb (regs s1) (pending s1 @ concat xs)
              = absorb (regs s) (pending s @ concat (x # xs))"
    unfolding s1(3,4) using absorb_append [of "regs s" "pending s @ x" "concat xs"] by simp
  have "feed s (x # xs) = Some s'"
    by (simp add: s1(1) s'(1))
  moreover have "total_len s' = total_len s + of_nat (length (concat (x # xs)))"
    unfolding s'(5) s1(5) by simp
  ultimately show ?case
    using s'(2-4) unfolding ab by blast
qed

lemma digest_char:
  assumes "length (buffer storage) = 64"
  shows "digest storage data =
           Some (digest_bytes (fst (absorb init_regs
                   (data @ pad_bytes (length data mod 64) (of_nat (length data))))))"
proof -
  let ?s0 = "MD5_new storage"
  have wf0: "well_formed ?s0"
    using assms by (rule MD5_new_well_formed)
  have v0: "regs ?s0 = init_regs" "total_len ?s0 = 0" "pending ?s0 = []"
    using MD5_new_view [of storage] by (simp_all add: view_def)
  obtain s1 where s1: "update ?s0 data = Some s1" "well_formed s1"
    "regs s1 = fst (absorb init_regs data)"
    "pending s1 = snd (absorb init_regs data)"
    "total_len s1 = of_nat (length data)"
    using update_char [OF wf0, of data] unfolding v0 by auto
  have bl: "buffer_len s1 = length data mod 64"
    using pending_length [OF s1(2)] unfolding s1(4) by (simp add: absorb_rest_mod)
  let ?pad = "pad_bytes (length data mod 64) (of_nat (length data))"
  obtain s2 where s2: "regs s2 = fst (absorb (regs s1) (pending s1 @ ?pad))"
    "finalize s1 = Some (digest_bytes (regs s2), reset s2)"
    using finalize_char [OF s1(2)] unfolding bl s1(5) by blast
  have "regs s2 = fst (absorb init_regs (data @ ?pad))"
    unfolding s2(1) s1(3,4) by (simp add: absorb_append [symmetric])
  then show ?thesis
    by (simp add: digest_def Let_def s1(1) s2(2))
qed

subsection \<open>The length of the padding\<close>

lemma need_zeroes_mod: "(n + 1 + need_zeroes n) mod 64 = 57"
proof -
  define q m where "q = n div 64" and "m = n mod 64"
  have n: "n = 64 * q + m" and m: "m < 64"
    by (simp_all add: q_def m_def)
  show ?thesis
  proof (cases "m \<le> 56")
    case True
    then have "n + 1 + need_zeroes n = 64 * q + 57"
      unfolding need_zeroes_def m_def [symmetric] using n by simp
    then show ?thesis
      by simp
  next
    case False
    then have "n + 1 + need_zeroes n = 64 * (q + 1) + 57"
      unfolding need_zeroes_def m_def [symmetric] using n m by simp
    then show ?thesis
      by (simp only: mod_mult_self4) simp
  qed
qed

lemma pad_total_mod: "(n + length (pad_bytes n w)) mod 64 = 1"
proof -
  have "n + length (pad_bytes n w) = (n + 1 + need_zeroes n) + 8"
    by (simp add: pad_bytes_length)
  then have "(n + length (pad_bytes n w)) mod 64 = ((n + 1 + need_zeroes n) mod 64 + 8) mod 64"
    by (simp only: mod_add_left_eq)
  then show ?thesis
    unfolding need_zeroes_mod by simp
qed

subsection \<open>A fill that completes a block, and the byte count\<close>

lemma update_fill_full:
  assumes wf: "well_formed s" and "0 < buffer_len s" and "64 \<le> buffer_len s + length p"
  shows "\<exists>s'. update_fill s p = Some (s', drop (64 - buffer_len s) p)
           \<and> buffer_len s' = 0 \<and> length (buffer s') = 64
           \<and> regs s' = compress (regs s) (pending s @ take (64 - buffer_len s) p)"
proof -
  let ?bl = "buffer_len s"
  let ?blk = "take ?bl (buffer s) @ take (64 - ?bl) p"
  let ?s1 = "s\<lparr>buffer := ?blk, buffer_len := 64\<rparr>"
  let ?s2 = "(put_regs (compress (regs s) ?blk) ?s1)\<lparr>buffer_len := 0\<rparr>"
  have len: "length (buffer s) = 64" and bl: "?bl < 64"
    using wf by (simp_all add: well_formed_def)
  have blk_len: "length ?blk = 64"
    using assms(3) len bl by simp
  have cpy: "memcpy (buffer s) ?bl p (64 - ?bl) = Some ?blk"
    using assms(3) len bl by (simp add: memcpy_def)
  have tr: "transform ?s1 ?blk = Some (put_regs (compress (regs s) ?blk) ?s1)"
    using transform_compress [of ?blk ?s1] blk_len by (simp add: regs_def)
  have tc: "\<not> length p < 64 - ?bl"
    using assms(3) by linarith
  have "update_fill s p = Some (?s2, drop (64 - ?bl) p)"
    using assms(2) bl by (simp add: update_fill_def Let_def tc cpy tr)
  moreover have "regs ?s2 = compress (regs s) ?blk"
    using regs_put_regs [of "compress (regs s) ?blk" ?s1] by (simp add: regs_def)
  moreover have "length (buffer ?s2) = 64"
    using blk_len by (simp add: put_regs_fields)
  ultimately show ?thesis
    by (simp add: pending_def)
qed

lemma run_total_len:
  assumes "well_formed s" and "total_len s = of_nat n"
  shows "\<exists>outs s'. run s cs = Some (outs, s') \<and> well_formed s'
           \<and> total_len s' = of_nat (raw_count n cs)"
  using assms
proof (induction cs arbitrary: s n)
  case Nil
  then show ?case
    by simp
next
  case (Cons c cs)
  show ?case
  proof (cases c)
    case Reset
    have "well_formed (reset s)" "total_len (reset s) = of_nat 0"
      using Cons.prems by (simp_all add: reset_well_formed well_formed_buffer reset_fields)
    from Cons.IH [OF this] show ?thesis
      by (simp add: Reset)
  next
    case (Update data)
    obtain s' where u: "update s data = Some s'" "well_formed s'"
      "total_len s' = total_len s + of_nat (length data)"
      using update_char [OF Cons.prems(1), of data] by blast
    have "total_len s' = of_nat (n + length data)"
      unfolding u(3) Cons.prems(2) by simp
    from Cons.IH [OF u(2) this] show ?thesis
      by (simp add: Update u(1))
  next
    case Finalize
    obtain s' where f: "well_formed s'" "finalize s = Some (digest_bytes (regs s'), reset s')"
      using finalize_char [OF Cons.prems(1)] by blast
    have "well_formed (reset s')" "total_len (reset s') = of_nat 0"
      using f(1) by (simp_all add: reset_well_formed well_formed_buffer reset_fields)
    from Cons.IH [OF this] obtain outs s'' where
      "run (reset s') cs = Some (outs, s'')" "well_formed s''"
      "total_len s'' = of_nat (raw_count 0 cs)"
      by blast
    then show ?thesis
      by (simp add: Finalize f(2))
  qed
qed

(*LEMMAS*)

lemma zero_storage_buffer: "length (buffer zero_storage) = 64"
  by (simp add: zero_storage_def)

section \<open>Chunking invariance\<close>

text \<open>
  Claim C4. Take any object the constructor has built and any list of pieces.
  Feeding the pieces one \<^verbatim>\<open>update\<close> call after the other, and feeding their
  concatenation in a single call, both succeed and end in the same state of the
  engine: the same accumulators, the same byte count, the same pending bytes and
  the same number of them. A \<^verbatim>\<open>finalize\<close> call then succeeds on both and
  returns the same digest. (The state is the one the specification defines. The
  bytes of the array behind the pending ones are no part of it; they hold
  whatever earlier blocks left there.)
\<close>

theorem chunking_invariance:
  assumes "length (buffer storage) = 64"
  shows "\<exists>s1 s2 out t1 t2.
           feed (MD5_new storage) pieces = Some s1
           \<and> update (MD5_new storage) (concat pieces) = Some s2
           \<and> view s1 = view s2
           \<and> finalize s1 = Some (out, t1) \<and> finalize s2 = Some (out, t2)"
proof -
  let ?s0 = "MD5_new storage"
  have wf0: "well_formed ?s0"
    using assms by (rule MD5_new_well_formed)
  obtain s1 where s1: "feed ?s0 pieces = Some s1" "well_formed s1"
    "regs s1 = fst (absorb (regs ?s0) (pending ?s0 @ concat pieces))"
    "pending s1 = snd (absorb (regs ?s0) (pending ?s0 @ concat pieces))"
    "total_len s1 = total_len ?s0 + of_nat (length (concat pieces))"
    using feed_char [OF wf0, of pieces] by blast
  obtain s2 where s2: "update ?s0 (concat pieces) = Some s2" "well_formed s2"
    "regs s2 = fst (absorb (regs ?s0) (pending ?s0 @ concat pieces))"
    "pending s2 = snd (absorb (regs ?s0) (pending ?s0 @ concat pieces))"
    "total_len s2 = total_len ?s0 + of_nat (length (concat pieces))"
    using update_char [OF wf0, of "concat pieces"] by blast
  have "buffer_len s1 = length (pending s1)" "buffer_len s2 = length (pending s2)"
    using s1(2) s2(2) by (simp_all add: pending_length)
  then have v: "view s1 = view s2"
    using s1(3-5) s2(3-5) by (simp add: view_eq)
  obtain out t1 t2 where "finalize s1 = Some (out, t1)" "finalize s2 = Some (out, t2)"
    using finalize_view [OF s1(2) s2(2) v] by blast
  with s1(1) s2(1) v show ?thesis
    by blast
qed

theorem chunking_invariance_witness:
  "length (buffer zero_storage) = 64
   \<and> (\<exists>s1 s2 out t1 t2.
         feed (MD5_new zero_storage) [[0x61, 0x62], [], [0x63]] = Some s1
         \<and> update (MD5_new zero_storage) [0x61, 0x62, 0x63] = Some s2
         \<and> view s1 = view s2
         \<and> finalize s1 = Some (out, t1) \<and> finalize s2 = Some (out, t2))"
  using chunking_invariance [OF zero_storage_buffer, of "[[0x61, 0x62], [], [0x63]]"]
  by (simp add: zero_storage_buffer)

section \<open>The object after finalize\<close>

text \<open>
  Claim C5. \<^verbatim>\<open>finalize\<close> succeeds on every object that satisfies the class
  invariant and leaves the four accumulators at their initial constants, the
  byte count at zero and the buffer empty: the state of a freshly constructed
  object. Whatever calls follow, they succeed on both objects, return the same
  digests and end in the same state.
\<close>

theorem finalize_resets:
  assumes "well_formed s" and "length (buffer storage) = 64"
  shows "\<exists>out s'.
           finalize s = Some (out, s')
           \<and> acc_a s' = 0x67452301 \<and> acc_b s' = 0xefcdab89
           \<and> acc_c s' = 0x98badcfe \<and> acc_d s' = 0x10325476
           \<and> total_len s' = 0 \<and> buffer_len s' = 0 \<and> pending s' = []
           \<and> view s' = view (MD5_new storage)
           \<and> (\<forall>cs. \<exists>outs t u.
                  run s' cs = Some (outs, t) \<and> run (MD5_new storage) cs = Some (outs, u)
                  \<and> view t = view u)"
proof -
  obtain s1 where s1: "well_formed s1" "finalize s = Some (digest_bytes (regs s1), reset s1)"
    using finalize_char [OF assms(1)] by blast
  let ?s' = "reset s1"
  have wf: "well_formed ?s'"
    using s1(1) by (simp add: reset_well_formed well_formed_buffer)
  have wf0: "well_formed (MD5_new storage)"
    using assms(2) by (rule MD5_new_well_formed)
  have v: "view ?s' = view (MD5_new storage)"
    by (simp add: reset_view MD5_new_view)
  have "\<exists>outs t u. run ?s' cs = Some (outs, t) \<and> run (MD5_new storage) cs = Some (outs, u)
          \<and> view t = view u" for cs
    using run_view [OF wf wf0 v, of cs] by blast
  moreover have "acc_a ?s' = 0x67452301" "acc_b ?s' = 0xefcdab89" "acc_c ?s' = 0x98badcfe"
    "acc_d ?s' = 0x10325476" "total_len ?s' = 0" "buffer_len ?s' = 0" "pending ?s' = []"
    by (simp_all add: reset_def pending_def)
  ultimately show ?thesis
    using s1(2) v by blast
qed

theorem finalize_resets_witness:
  "well_formed (MD5_new zero_storage) \<and> length (buffer zero_storage) = 64
   \<and> (\<exists>out s'.
         finalize (MD5_new zero_storage) = Some (out, s')
         \<and> view s' = view (MD5_new zero_storage)
         \<and> (\<exists>outs t u.
                run s' [Update [0x61], Finalize] = Some (outs, t)
                \<and> run (MD5_new zero_storage) [Update [0x61], Finalize] = Some (outs, u)
                \<and> view t = view u))"
proof -
  have wf: "well_formed (MD5_new zero_storage)"
    using zero_storage_buffer by (rule MD5_new_well_formed)
  from finalize_resets [OF wf zero_storage_buffer] wf zero_storage_buffer
  show ?thesis
    by blast
qed

section \<open>Invariants of the object between public calls\<close>

text \<open>
  Claim C6. Whatever calls of \<^verbatim>\<open>reset\<close>, \<^verbatim>\<open>update\<close> and \<^verbatim>\<open>finalize\<close> a
  client makes on a constructed object, all of them succeed and afterwards the
  number of pending bytes is at most 63. It is never 64 at rest: when the bytes
  of an \<^verbatim>\<open>update\<close> fill a non-empty buffer up to 64, the fill itself runs
  the compression step on these 64 bytes and sets the length back to zero
  before anything else happens.
\<close>

theorem pending_length_invariant:
  assumes "length (buffer storage) = 64"
  shows "(\<exists>outs s. run (MD5_new storage) cs = Some (outs, s)
            \<and> buffer_len s \<le> 63 \<and> length (pending s) = buffer_len s
            \<and> length (buffer s) = 64)
         \<and> (\<forall>s p. well_formed s \<and> 0 < buffer_len s \<and> 64 \<le> buffer_len s + length p \<longrightarrow>
               (\<exists>s'. update_fill s p = Some (s', drop (64 - buffer_len s) p)
                  \<and> buffer_len s' = 0
                  \<and> regs s' = compress (regs s) (pending s @ take (64 - buffer_len s) p)))"
proof (intro conjI allI impI)
  have "well_formed (MD5_new storage)"
    using assms by (rule MD5_new_well_formed)
  then obtain outs s where r: "run (MD5_new storage) cs = Some (outs, s)" "well_formed s"
    using run_well_formed by blast
  have "buffer_len s \<le> 63" "length (pending s) = buffer_len s" "length (buffer s) = 64"
    using r(2) pending_length [OF r(2)] by (simp_all add: well_formed_def)
  with r(1) show "\<exists>outs s. run (MD5_new storage) cs = Some (outs, s)
      \<and> buffer_len s \<le> 63 \<and> length (pending s) = buffer_len s \<and> length (buffer s) = 64"
    by blast
next
  fix s :: md5 and p :: "u8 list"
  assume "well_formed s \<and> 0 < buffer_len s \<and> 64 \<le> buffer_len s + length p"
  then show "\<exists>s'. update_fill s p = Some (s', drop (64 - buffer_len s) p)
      \<and> buffer_len s' = 0
      \<and> regs s' = compress (regs s) (pending s @ take (64 - buffer_len s) p)"
    using update_fill_full [of s p] by blast
qed

theorem pending_length_invariant_witness:
  "length (buffer zero_storage) = 64
   \<and> (\<exists>outs s. run (MD5_new zero_storage)
                  [Update (replicate 63 0), Update [1], Finalize, Update [2], Reset]
                = Some (outs, s)
         \<and> buffer_len s \<le> 63 \<and> length (pending s) = buffer_len s
         \<and> length (buffer s) = 64)
   \<and> well_formed (zero_storage\<lparr>buffer_len := 63\<rparr>)
   \<and> (\<exists>s'. update_fill (zero_storage\<lparr>buffer_len := 63\<rparr>) [1, 2] = Some (s', [2])
          \<and> buffer_len s' = 0)"
proof -
  let ?cs = "[Update (replicate 63 0), Update [1], Finalize, Update [2], Reset]"
  let ?s = "zero_storage\<lparr>buffer_len := 63\<rparr>"
  note inst = pending_length_invariant [OF zero_storage_buffer, of ?cs]
  have wf: "well_formed ?s"
    by (simp add: well_formed_def zero_storage_def)
  have "0 < buffer_len ?s" "64 \<le> buffer_len ?s + length [1 :: u8, 2]"
    by simp_all
  with inst wf have "\<exists>s'. update_fill ?s [1, 2] = Some (s', drop (64 - buffer_len ?s) [1, 2])
      \<and> buffer_len s' = 0"
    by blast
  then have "\<exists>s'. update_fill ?s [1, 2] = Some (s', [2]) \<and> buffer_len s' = 0"
    by simp
  with inst wf zero_storage_buffer show ?thesis
    by blast
qed

text \<open>
  Claim C7. An \<^verbatim>\<open>update\<close> call adds the number of its bytes to
  \<^verbatim>\<open>total_len_\<close>, in the 64-bit unsigned arithmetic of that member, and adds
  zero for an empty input. After any calls on a constructed object,
  \<^verbatim>\<open>total_len_\<close> is the number of bytes passed to \<^verbatim>\<open>update\<close> since the
  object was last initialised (as a 64-bit unsigned value: the number itself
  below \<open>2^64\<close>, and the number modulo \<open>2^64\<close> in general):
  the padding that \<^verbatim>\<open>finalize\<close> feeds through \<^verbatim>\<open>update\<close> is counted only
  inside \<^verbatim>\<open>finalize\<close>, which sets the count to zero before it returns. The
  length field that a following \<^verbatim>\<open>finalize\<close> stores at the end of its padding
  is eight times this count, taken before any padding is fed.
\<close>

theorem total_len_counts_input:
  assumes "length (buffer storage) = 64"
  shows "(\<forall>s data. well_formed s \<longrightarrow>
            (\<exists>s'. update s data = Some s'
               \<and> total_len s' = total_len s + of_nat (length data)))
         \<and> (\<forall>s. well_formed s \<longrightarrow> (\<exists>s'. update s [] = Some s' \<and> total_len s' = total_len s))
         \<and> (\<exists>outs s pad pad_len bytes.
               run (MD5_new storage) cs = Some (outs, s)
               \<and> total_len s = of_nat (raw_count 0 cs)
               \<and> unat (total_len s) = raw_count 0 cs mod 2 ^ 64
               \<and> (raw_count 0 cs < 2 ^ 64 \<longrightarrow> unat (total_len s) = raw_count 0 cs)
               \<and> finalize_pad s = Some (pad, pad_len)
               \<and> peek_bytes pad pad_len = Some bytes
               \<and> drop (pad_len - 8) bytes = length_bytes (of_nat (raw_count 0 cs) * 8))"
proof (intro conjI allI impI)
  fix s :: md5 and data :: "u8 list"
  assume wf: "well_formed s"
  show "\<exists>s'. update s data = Some s' \<and> total_len s' = total_len s + of_nat (length data)"
    using update_char [OF wf, of data] by blast
  show "\<exists>s'. update s [] = Some s' \<and> total_len s' = total_len s"
    using update_char [OF wf, of "[]"] by auto
next
  have wf0: "well_formed (MD5_new storage)"
    using assms by (rule MD5_new_well_formed)
  have "total_len (MD5_new storage) = of_nat 0"
    by (simp add: MD5_new_def reset_fields)
  with wf0 obtain outs s where r: "run (MD5_new storage) cs = Some (outs, s)"
    "total_len s = of_nat (raw_count 0 cs)"
    using run_total_len [of "MD5_new storage" 0 cs] by blast
  let ?bytes = "pad_bytes (buffer_len s) (total_len s)"
  have "length ?bytes \<le> 128"
    using pad_bytes_bound [of "buffer_len s" "total_len s"] by simp
  then have peek: "peek_bytes (cells ?bytes) (length ?bytes) = Some ?bytes"
    by (rule peek_cells)
  have "drop (length ?bytes - 8) ?bytes = length_bytes (total_len s * 8)"
    by (simp add: pad_bytes_def length_bytes_length)
  then have field: "drop (length ?bytes - 8) ?bytes = length_bytes (of_nat (raw_count 0 cs) * 8)"
    unfolding r(2) .
  have u: "unat (total_len s) = raw_count 0 cs mod 2 ^ 64"
    unfolding r(2) by (simp add: unat_of_nat)
  then have "raw_count 0 cs < 2 ^ 64 \<longrightarrow> unat (total_len s) = raw_count 0 cs"
    by simp
  with u r peek field finalize_pad_bytes [of s]
  show "\<exists>outs s pad pad_len bytes.
      run (MD5_new storage) cs = Some (outs, s)
      \<and> total_len s = of_nat (raw_count 0 cs)
      \<and> unat (total_len s) = raw_count 0 cs mod 2 ^ 64
      \<and> (raw_count 0 cs < 2 ^ 64 \<longrightarrow> unat (total_len s) = raw_count 0 cs)
      \<and> finalize_pad s = Some (pad, pad_len)
      \<and> peek_bytes pad pad_len = Some bytes
      \<and> drop (pad_len - 8) bytes = length_bytes (of_nat (raw_count 0 cs) * 8)"
    by blast
qed

theorem total_len_counts_input_witness:
  "length (buffer zero_storage) = 64
   \<and> well_formed (MD5_new zero_storage)
   \<and> (\<exists>s'. update (MD5_new zero_storage) [] = Some s'
          \<and> total_len s' = total_len (MD5_new zero_storage))
   \<and> raw_count 0 [Update [1, 2, 3], Finalize, Update [4], Update [], Update [5, 6]] = 3
   \<and> (\<exists>outs s. run (MD5_new zero_storage)
                  [Update [1, 2, 3], Finalize, Update [4], Update [], Update [5, 6]]
                = Some (outs, s)
         \<and> total_len s = 3 \<and> unat (total_len s) = 3)"
proof -
  let ?cs = "[Update [1, 2, 3], Finalize, Update [4], Update [], Update [5, 6]]"
  note inst = total_len_counts_input [OF zero_storage_buffer, of ?cs]
  have wf: "well_formed (MD5_new zero_storage)"
    using zero_storage_buffer by (rule MD5_new_well_formed)
  have n: "raw_count 0 ?cs = 3"
    by simp
  from inst wf have e: "\<exists>s'. update (MD5_new zero_storage) [] = Some s'
      \<and> total_len s' = total_len (MD5_new zero_storage)"
    by blast
  from inst obtain outs s where "run (MD5_new zero_storage) ?cs = Some (outs, s)"
    "total_len s = of_nat (raw_count 0 ?cs)"
    by blast
  then have "run (MD5_new zero_storage) ?cs = Some (outs, s)" "total_len s = 3"
    unfolding n by simp_all
  then have "\<exists>outs s. run (MD5_new zero_storage) ?cs = Some (outs, s)
      \<and> total_len s = 3 \<and> unat (total_len s) = 3"
    by auto
  with zero_storage_buffer wf e n show ?thesis
    by blast
qed

section \<open>The padding built by finalize\<close>

text \<open>
  Claim C9. On every object, and so on every object a client can reach,
  \<^verbatim>\<open>finalize\<close> builds its padding without a store outside the 128 bytes of
  \<^verbatim>\<open>pad\<close>: \<^verbatim>\<open>pad_len\<close> is at least 9 and at most 72, and each of the first
  \<^verbatim>\<open>pad_len\<close> bytes of \<^verbatim>\<open>pad\<close> has been written when \<^verbatim>\<open>update\<close> reads
  them, so the read is defined and yields \<^verbatim>\<open>pad_len\<close> bytes.
\<close>

theorem finalize_pad_in_bounds:
  "\<exists>pad pad_len bytes.
     finalize_pad s = Some (pad, pad_len)
     \<and> length pad = 128 \<and> 9 \<le> pad_len \<and> pad_len \<le> 72
     \<and> peek_bytes pad pad_len = Some bytes \<and> length bytes = pad_len
     \<and> bytes = pad_bytes (buffer_len s) (total_len s)"
proof -
  let ?bytes = "pad_bytes (buffer_len s) (total_len s)"
  have le: "length ?bytes \<le> 72"
    by (rule pad_bytes_bound)
  then have "length ?bytes \<le> 128"
    by simp
  then have "peek_bytes (cells ?bytes) (length ?bytes) = Some ?bytes"
    and "length (cells ?bytes) = 128"
    by (simp_all add: peek_cells cells_length)
  moreover have "9 \<le> length ?bytes"
    by (simp add: pad_bytes_length)
  ultimately show ?thesis
    using le finalize_pad_bytes [of s] by blast
qed

(*LEMMAS*)

text \<open>
  Claim C2 does not hold of this code. The comment of \<^verbatim>\<open>finalize\<close> announces
  zero bytes "until (len % 64) == 56", but the count \<^verbatim>\<open>need_zeroes\<close> is
  computed from \<^verbatim>\<open>buffer_len_\<close> alone and leaves out the \<open>0x80\<close> byte stored
  before. For every object, the bytes that \<^verbatim>\<open>finalize\<close> feeds are \<open>0x80\<close>,
  then \<open>need_zeroes\<close> zero bytes, then the eight bytes of the length; after the
  zero bytes the number of bytes is 57 modulo 64, not 56, and with the length
  field it is 1 modulo 64, not 0. On a fresh object the padding has 65 bytes: 56
  zero bytes, where 55 are called for.
\<close>

theorem padding_one_byte_long:
  "(\<exists>pad pad_len.
      finalize_pad s = Some (pad, pad_len)
      \<and> peek_bytes pad pad_len = Some (pad_bytes (buffer_len s) (total_len s)))
   \<and> pad_bytes (buffer_len s) (total_len s)
       = 0x80 # replicate (need_zeroes (buffer_len s)) 0 @ length_bytes (total_len s * 8)
   \<and> (buffer_len s + 1 + need_zeroes (buffer_len s)) mod 64 = 57
   \<and> (buffer_len s + length (pad_bytes (buffer_len s) (total_len s))) mod 64 = 1
   \<and> need_zeroes (buffer_len (MD5_new zero_storage)) = 56
   \<and> length (pad_bytes (buffer_len (MD5_new zero_storage)) (total_len (MD5_new zero_storage)))
       = 65"
proof (intro conjI)
  let ?bytes = "pad_bytes (buffer_len s) (total_len s)"
  have "length ?bytes \<le> 128"
    using pad_bytes_bound [of "buffer_len s" "total_len s"] by simp
  then have "peek_bytes (cells ?bytes) (length ?bytes) = Some ?bytes"
    by (rule peek_cells)
  then show "\<exists>pad pad_len. finalize_pad s = Some (pad, pad_len)
      \<and> peek_bytes pad pad_len = Some ?bytes"
    using finalize_pad_bytes [of s] by blast
  show "?bytes = 0x80 # replicate (need_zeroes (buffer_len s)) 0
                   @ length_bytes (total_len s * 8)"
    by (rule pad_bytes_def)
  show "(buffer_len s + 1 + need_zeroes (buffer_len s)) mod 64 = 57"
    by (rule need_zeroes_mod)
  show "(buffer_len s + length ?bytes) mod 64 = 1"
    by (rule pad_total_mod)
  have z: "buffer_len (MD5_new zero_storage) = 0"
    by (simp add: MD5_new_def reset_fields)
  show "need_zeroes (buffer_len (MD5_new zero_storage)) = 56"
    unfolding z by (simp add: need_zeroes_def)
  then show "length (pad_bytes (buffer_len (MD5_new zero_storage))
                       (total_len (MD5_new zero_storage))) = 65"
    by (simp add: pad_bytes_length)
qed

section \<open>The hex formatter\<close>

lemma nibble_bound: "unat ((x :: u8) AND 0xF) < 16"
proof -
  have "unat (x AND 0xF) \<le> unat (0xF :: u8)"
    by (rule word_and_le1 [THEN word_le_nat_alt [THEN iffD1]])
  then show ?thesis
    by simp
qed

lemma hexd_digits:
  "list_all (\<lambda>n. lower_hex (hexd ! n) \<and> hex_value (hexd ! n) = Some (of_nat n)) [0..<16]"
  by code_simp

lemma hexd_nth:
  assumes "n < 16"
  shows "lower_hex (hexd ! n)" and "hex_value (hexd ! n) = Some (of_nat n)"
  using hexd_digits assms by (simp_all add: list_all_iff)

lemma byte_nibbles: "push_bit 4 (drop_bit 4 b AND 0xF) OR (b AND 0xF) = (b :: u8)"
proof -
  have m: "(0xF :: u8) = mask 4"
    by (simp add: mask_eq_exp_minus_1)
  show ?thesis
    unfolding m
    by (rule bit_word_eqI) (auto simp: bit_simps)
qed


lemma take_update_two:
  assumes "Suc k < length s"
  shows "take (Suc (Suc k)) (s[k := a, Suc k := b]) = take k s @ [a, b]"
proof -
  let ?s = "s[k := a, Suc k := b]"
  have "take (Suc (Suc k)) ?s = take (Suc k) ?s @ [?s ! Suc k]"
    using assms by (simp add: take_Suc_conv_app_nth)
  also have "take (Suc k) ?s = take k ?s @ [?s ! k]"
    using assms by (simp add: take_Suc_conv_app_nth)
  finally show ?thesis
    using assms by simp
qed

lemma hex_loop_char:
  "16 - i = n \<Longrightarrow> length d = 16 \<Longrightarrow> length s = 32 \<Longrightarrow>
   hex_loop d i s = take (2 * i) s @ concat (map hex_pair (drop i d))"
proof (induction n arbitrary: i s)
  case 0
  then have "\<not> i < 16"
    by simp
  with 0 show ?case
    by (subst hex_loop.simps) simp
next
  case (Suc n)
  then have i: "i < 16" and n: "16 - Suc i = n"
    by simp_all
  let ?s = "s[2 * i := hexd ! unat (drop_bit 4 (d ! i) AND 0xF),
              Suc (2 * i) := hexd ! unat (d ! i AND 0xF)]"
  have len: "length ?s = 32"
    using Suc.prems by simp
  have "Suc (2 * i) < length s"
    using i Suc.prems by simp
  then have tk: "take (2 * Suc i) ?s = take (2 * i) s @ hex_pair (d ! i)"
    using take_update_two [of "2 * i" s] by (simp add: hex_pair_def)
  have dr: "drop i d = d ! i # drop (Suc i) d"
    using i Suc.prems by (simp add: Cons_nth_drop_Suc)
  have "hex_loop d i s = hex_loop d (Suc i) ?s"
    by (subst hex_loop.simps) (simp add: i)
  also have "\<dots> = take (2 * Suc i) ?s @ concat (map hex_pair (drop (Suc i) d))"
    by (rule Suc.IH [OF n Suc.prems(2) len])
  finally show ?case
    unfolding tk dr by simp
qed

lemma hex_concat: "length d = 16 \<Longrightarrow> hex d = concat (map hex_pair d)"
  using hex_loop_char [of 0 16 d "replicate 32 (CHR 0x00)"] by (simp add: hex_def)

lemma hex_pairs_length: "length (concat (map hex_pair d)) = 2 * length d"
  by (induction d) (simp_all add: hex_pair_def)

lemma hex_pair_lower: "list_all lower_hex (hex_pair b)"
proof -
  have "unat (drop_bit 4 b AND 0xF) < 16" "unat (b AND 0xF) < 16"
    by (rule nibble_bound)+
  then show ?thesis
    by (simp add: hex_pair_def hexd_nth(1))
qed

lemma hex_pairs_lower: "list_all lower_hex (concat (map hex_pair d))"
  using hex_pair_lower by (induction d) simp_all

lemma unhex_hex_pair:
  "unhex (hex_pair b @ cs) = (case unhex cs of None \<Rightarrow> None | Some bs \<Rightarrow> Some (b # bs))"
proof -
  let ?h = "drop_bit 4 b AND 0xF" and ?l = "b AND 0xF"
  have hi: "unat ?h < 16" and lo: "unat ?l < 16"
    by (rule nibble_bound)+
  have hv: "hex_value (hexd ! unat ?h) = Some ?h" "hex_value (hexd ! unat ?l) = Some ?l"
    using hexd_nth(2) [OF hi] hexd_nth(2) [OF lo] by simp_all
  have "unhex (hexd ! unat ?h # hexd ! unat ?l # cs)
          = (case unhex cs of None \<Rightarrow> None | Some bs \<Rightarrow> Some ((push_bit 4 ?h OR ?l) # bs))"
    by (simp only: unhex.simps hv option.case)
  then show ?thesis
    unfolding byte_nibbles by (simp add: hex_pair_def)
qed

lemma unhex_hex_pairs: "unhex (concat (map hex_pair d)) = Some d"
  by (induction d) (simp_all add: unhex_hex_pair)

text \<open>
  Claim C8. For every digest \<open>d\<close> of 16 bytes, \<^verbatim>\<open>hex(d)\<close> has 32 characters,
  each of them one of \<open>0123456789abcdef\<close>; it is the concatenation, in the order
  of the bytes, of two digits per byte, first the digit of the upper four bits,
  then the digit of the lower four; and decoding it two digits at a time gives
  back exactly the bytes of \<open>d\<close>.
\<close>

theorem hex_round_trip:
  assumes "length d = 16"
  shows "length (hex d) = 32
         \<and> list_all lower_hex (hex d)
         \<and> hex d = concat (map (\<lambda>b. [hexd ! unat (drop_bit 4 b AND 0xF),
                                       hexd ! unat (b AND 0xF)]) d)
         \<and> unhex (hex d) = Some d"
proof -
  have h: "hex d = concat (map hex_pair d)"
    using assms by (rule hex_concat)
  have "hex_pair = (\<lambda>b. [hexd ! unat (drop_bit 4 b AND 0xF), hexd ! unat (b AND 0xF)])"
    by (rule ext) (simp add: hex_pair_def)
  then have "concat (map hex_pair d)
               = concat (map (\<lambda>b. [hexd ! unat (drop_bit 4 b AND 0xF),
                                       hexd ! unat (b AND 0xF)]) d)"
    by simp
  then show ?thesis
    unfolding h using assms hex_pairs_length [of d] hex_pairs_lower [of d] unhex_hex_pairs [of d]
    by simp
qed

theorem hex_round_trip_witness:
  "length [0xd4, 0x1d, 0x8c, 0xd9, 0x8f, 0x00, 0xb2, 0x04,
           0xe9, 0x80, 0x09, 0x98, 0xec, 0xf8, 0x42, 0x7e :: u8] = 16
   \<and> hex [0xd4, 0x1d, 0x8c, 0xd9, 0x8f, 0x00, 0xb2, 0x04,
          0xe9, 0x80, 0x09, 0x98, 0xec, 0xf8, 0x42, 0x7e] = ''d41d8cd98f00b204e9800998ecf8427e''
   \<and> unhex ''d41d8cd98f00b204e9800998ecf8427e''
       = Some [0xd4, 0x1d, 0x8c, 0xd9, 0x8f, 0x00, 0xb2, 0x04,
               0xe9, 0x80, 0x09, 0x98, 0xec, 0xf8, 0x42, 0x7e]"
proof -
  let ?d = "[0xd4, 0x1d, 0x8c, 0xd9, 0x8f, 0x00, 0xb2, 0x04,
             0xe9, 0x80, 0x09, 0x98, 0xec, 0xf8, 0x42, 0x7e :: u8]"
  have len: "length ?d = 16"
    by simp
  from hex_round_trip [OF len]
  have h: "hex ?d = concat (map (\<lambda>b. [hexd ! unat (drop_bit 4 b AND 0xF),
                                         hexd ! unat (b AND 0xF)]) ?d)"
    and u: "unhex (hex ?d) = Some ?d"
    by blast+
  have "hex ?d = ''d41d8cd98f00b204e9800998ecf8427e''"
    unfolding h by (simp add: hexd_def)
  with u len show ?thesis
    by simp
qed

section \<open>Evaluating the compression step\<close>

text \<open>
  Numerals of type \<open>u32\<close> are kept below \<open>2^32\<close> while the 64 rounds are
  evaluated, and the loop is unfolded one round at a time.
\<close>

lemma u32_of_int_mod: "(word_of_int (k mod 4294967296) :: u32) = word_of_int k"
  by (simp add: word_of_int_eq_iff take_bit_eq_mod)

lemma u32_numeral_norm:
  "4294967296 \<le> (numeral n :: nat) \<Longrightarrow>
   (numeral n :: u32) = word_of_int (numeral n mod 4294967296)"
  by (simp only: u32_of_int_mod word_of_int_numeral)

lemma u32_neg_numeral_norm:
  "(- numeral n :: u32) = word_of_int (- numeral n mod 4294967296)"
  by (simp only: u32_of_int_mod of_int_minus of_int_numeral)

lemmas eval_round =
  loop_unfold round_sum_def F_def G_def H_def I_def rotl_def S_def K_def
  u32_numeral_norm u32_neg_numeral_norm

lemma upt_8: "[0..<8] = [0, 1, 2, 3, 4, 5, 6, 7]"
  by code_simp

lemma upt_16: "[0..<16] = [0, 1, 2, 3, 4, 5, 6, 7, 8, 9, 10, 11, 12, 13, 14, 15]"
  by code_simp

lemma replicate_numeral: "replicate (numeral k) x = x # replicate (pred_numeral k) x"
  by (simp add: numeral_eq_Suc)

lemma list_update_numeral: "(x # xs)[numeral k := y] = x # xs[pred_numeral k := y]"
  by (simp add: numeral_eq_Suc)

lemma absorb_one_block:
  "length xs = 65 \<Longrightarrow> fst (absorb h xs) = compress h xs"
proof -
  assume len: "length xs = 65"
  then have "absorb h xs = absorb (compress h xs) (drop 64 xs)"
    by (simp add: absorb_long)
  also have "\<dots> = (compress h xs, drop 64 xs)"
    using len by (simp add: absorb_short)
  finally show ?thesis
    by simp
qed

subsection \<open>The empty message\<close>

lemma pad_empty: "pad_bytes 0 0 = 
     [128, 0, 0, 0, 0, 0, 0, 0, 0, 0, 0, 0, 0, 0, 0, 0, 0,
       0, 0, 0, 0, 0, 0, 0, 0, 0, 0, 0, 0, 0, 0, 0, 0, 0,
       0, 0, 0, 0, 0, 0, 0, 0, 0, 0, 0, 0, 0, 0, 0, 0, 0,
       0, 0, 0, 0, 0, 0, 0, 0, 0, 0, 0, 0, 0, 0]"
  by (simp add: pad_bytes_def need_zeroes_def length_bytes_def upt_8 replicate_numeral)

lemma words_empty: "block_words 
     [128, 0, 0, 0, 0, 0, 0, 0, 0, 0, 0, 0, 0, 0, 0, 0, 0,
       0, 0, 0, 0, 0, 0, 0, 0, 0, 0, 0, 0, 0, 0, 0, 0, 0,
       0, 0, 0, 0, 0, 0, 0, 0, 0, 0, 0, 0, 0, 0, 0, 0, 0,
       0, 0, 0, 0, 0, 0, 0, 0, 0, 0, 0, 0, 0, 0] = [128, 0, 0, 0, 0, 0, 0, 0, 0, 0, 0, 0, 0, 0, 0, 0]"
  by (simp add: block_words_def read_le32_def upt_16)

lemma loop_empty:
  "transform_loop [128, 0, 0, 0, 0, 0, 0, 0, 0, 0, 0, 0, 0, 0, 0, 0] 0
     (0x67452301, 0xefcdab89, 0x98badcfe, 0x10325476)
   = Some (1917254355, 350508294, 4283343851, 1846584438)"
  by (simp add: eval_round)

lemma compress_empty:
  "compress init_regs 
     [128, 0, 0, 0, 0, 0, 0, 0, 0, 0, 0, 0, 0, 0, 0, 0, 0,
       0, 0, 0, 0, 0, 0, 0, 0, 0, 0, 0, 0, 0, 0, 0, 0, 0,
       0, 0, 0, 0, 0, 0, 0, 0, 0, 0, 0, 0, 0, 0, 0, 0, 0,
       0, 0, 0, 0, 0, 0, 0, 0, 0, 0, 0, 0, 0, 0] = (3649838548, 78774415, 2550759657, 2118318316)"
  by (simp add: compress_def init_regs_def words_empty loop_empty)

lemma digest_bytes_empty:
  "digest_bytes (3649838548, 78774415, 2550759657, 2118318316)
   = [0xd4, 0x1d, 0x8c, 0xd9, 0x8f, 0x00, 0xb2, 0x04,
      0xe9, 0x80, 0x09, 0x98, 0xec, 0xf8, 0x42, 0x7e]"
  by (simp add: digest_bytes_def write_le32_def replicate_numeral list_update_numeral)

lemma hex_empty:
  "hex [0xd4, 0x1d, 0x8c, 0xd9, 0x8f, 0x00, 0xb2, 0x04,
      0xe9, 0x80, 0x09, 0x98, 0xec, 0xf8, 0x42, 0x7e]
   = ''d41d8cd98f00b204e9800998ecf8427e''"
  by (subst hex_concat) (simp_all add: hex_pair_def hexd_def)

lemma absorb_empty:
  "fst (absorb init_regs (pad_bytes 0 0)) = (3649838548, 78774415, 2550759657, 2118318316)"
  unfolding pad_empty by (subst absorb_one_block) (simp_all add: compress_empty)

subsection \<open>The message \<open>abc\<close>\<close>

lemma bytes_abc: "bytes_of ''abc'' = [97, 98, 99]"
  by (simp add: bytes_of_def)

lemma pad_abc: "pad_bytes 3 3 = 
     [128, 0, 0, 0, 0, 0, 0, 0, 0, 0, 0, 0, 0, 0, 0, 0, 0, 0, 0, 0, 0, 0,
      0, 0, 0, 0, 0, 0, 0, 0, 0, 0, 0, 0, 0, 0, 0, 0, 0, 0, 0, 0, 0, 0, 0,
      0, 0, 0, 0, 0, 0, 0, 0, 0, 24, 0, 0, 0, 0, 0, 0, 0]"
  by (simp add: pad_bytes_def need_zeroes_def length_bytes_def upt_8 replicate_numeral)

lemma words_abc:
  "block_words 
     [97, 98, 99, 128, 0, 0, 0, 0, 0, 0, 0, 0, 0, 0, 0, 0, 0, 0, 0, 0, 0,
      0, 0, 0, 0, 0, 0, 0, 0, 0, 0, 0, 0, 0, 0, 0, 0, 0, 0, 0, 0, 0, 0, 0,
      0, 0, 0, 0, 0, 0, 0, 0, 0, 0, 0, 0, 0, 24, 0, 0, 0, 0, 0, 0, 0]
   = [2153996897, 0, 0, 0, 0, 0, 0, 0, 0, 0, 0, 0, 0, 0, 6144, 0]"
  by (simp add: block_words_def read_le32_def upt_16)

lemma loop_abc:
  "transform_loop [2153996897, 0, 0, 0, 0, 0, 0, 0, 0, 0, 0, 0, 0, 0, 6144, 0] 0
     (0x67452301, 0xefcdab89, 0x98badcfe, 0x10325476)
   = Some (2030679395, 2549981181, 1900759701, 1229397871)"
  by (simp add: eval_round)

lemma compress_abc:
  "compress init_regs 
     [97, 98, 99, 128, 0, 0, 0, 0, 0, 0, 0, 0, 0, 0, 0, 0, 0, 0, 0, 0, 0,
      0, 0, 0, 0, 0, 0, 0, 0, 0, 0, 0, 0, 0, 0, 0, 0, 0, 0, 0, 0, 0, 0, 0,
      0, 0, 0, 0, 0, 0, 0, 0, 0, 0, 0, 0, 0, 24, 0, 0, 0, 0, 0, 0, 0]
   = (3763263588, 2278247302, 168175507, 1501131749)"
  by (simp add: compress_def init_regs_def words_abc loop_abc)

lemma absorb_abc:
  "fst (absorb init_regs ([97, 98, 99] @ pad_bytes 3 3))
   = (3763263588, 2278247302, 168175507, 1501131749)"
  unfolding pad_abc by (subst absorb_one_block) (simp_all add: compress_abc)

lemma digest_bytes_abc:
  "digest_bytes (3763263588, 2278247302, 168175507, 1501131749)
   = [100, 216, 78, 224, 134, 75, 203, 135, 147, 39, 6, 10, 229, 115, 121, 89]"
  by (simp add: digest_bytes_def write_le32_def replicate_numeral list_update_numeral)

lemma hex_abc:
  "hex [100, 216, 78, 224, 134, 75, 203, 135, 147, 39, 6, 10, 229, 115, 121, 89]
   = ''64d84ee0864bcb879327060ae5737959''"
  by (subst hex_concat) (simp_all add: hex_pair_def hexd_def)

subsection \<open>The message \<open>abc\<close> with the padding of RFC 1321\<close>

text \<open>
  With 52 zero bytes, the length field starts at byte 56 of the block. On that
  block the compression step of the code gives the digest the test vectors
  expect: the step itself follows the standard, and the digest of \<open>abc\<close> goes
  wrong in the padding.
\<close>

lemma words_abc_rfc:
  "block_words 
     [97, 98, 99, 128, 0, 0, 0, 0, 0, 0, 0, 0, 0, 0, 0, 0, 0, 0, 0, 0, 0,
      0, 0, 0, 0, 0, 0, 0, 0, 0, 0, 0, 0, 0, 0, 0, 0, 0, 0, 0, 0, 0, 0, 0,
      0, 0, 0, 0, 0, 0, 0, 0, 0, 0, 0, 0, 24, 0, 0, 0, 0, 0, 0, 0]
   = [2153996897, 0, 0, 0, 0, 0, 0, 0, 0, 0, 0, 0, 0, 0, 24, 0]"
  by (simp add: block_words_def read_le32_def upt_16)

lemma loop_abc_rfc:
  "transform_loop [2153996897, 0, 0, 0, 0, 0, 0, 0, 0, 0, 0, 0, 0, 0, 24, 0] 0
     (0x67452301, 0xefcdab89, 0x98badcfe, 0x10325476)
   = Some (822795919, 3229755059, 3833903576, 1649249458)"
  by (simp add: eval_round)

lemma compress_abc_rfc:
  "compress init_regs 
     [97, 98, 99, 128, 0, 0, 0, 0, 0, 0, 0, 0, 0, 0, 0, 0, 0, 0, 0, 0, 0,
      0, 0, 0, 0, 0, 0, 0, 0, 0, 0, 0, 0, 0, 0, 0, 0, 0, 0, 0, 0, 0, 0, 0,
      0, 0, 0, 0, 0, 0, 0, 0, 0, 0, 0, 0, 24, 0, 0, 0, 0, 0, 0, 0]
   = (2555380112, 2958021180, 2101319382, 1920983336)"
  by (simp add: compress_def init_regs_def words_abc_rfc loop_abc_rfc)

lemma digest_bytes_abc_rfc:
  "digest_bytes (2555380112, 2958021180, 2101319382, 1920983336)
   = [144, 1, 80, 152, 60, 210, 79, 176, 214, 150, 63, 125, 40, 225, 127, 114]"
  by (simp add: digest_bytes_def write_le32_def replicate_numeral list_update_numeral)

lemma hex_abc_rfc:
  "hex [144, 1, 80, 152, 60, 210, 79, 176, 214, 150, 63, 125, 40, 225, 127, 114]
   = ''900150983cd24fb0d6963f7d28e17f72''"
  by (subst hex_concat) (simp_all add: hex_pair_def hexd_def)

lemma abc_rfc_padding:
  "hex (digest_bytes (compress init_regs 
     [97, 98, 99, 128, 0, 0, 0, 0, 0, 0, 0, 0, 0, 0, 0, 0, 0, 0, 0, 0, 0,
      0, 0, 0, 0, 0, 0, 0, 0, 0, 0, 0, 0, 0, 0, 0, 0, 0, 0, 0, 0, 0, 0, 0,
      0, 0, 0, 0, 0, 0, 0, 0, 0, 0, 0, 0, 24, 0, 0, 0, 0, 0, 0, 0]))
   = ''900150983cd24fb0d6963f7d28e17f72''"
  by (simp only: compress_abc_rfc digest_bytes_abc_rfc hex_abc_rfc)

section \<open>Digests of the test vectors\<close>

text \<open>
  Claim C3. On a freshly constructed object, with no byte absorbed,
  \<^verbatim>\<open>finalize\<close> succeeds and returns 16 bytes whose rendering by \<^verbatim>\<open>hex\<close> is
  \<open>d41d8cd98f00b204e9800998ecf8427e\<close>; the one-shot helpers return the same
  bytes for the empty input.
\<close>

theorem empty_digest:
  assumes "length (buffer storage) = 64"
  shows "\<exists>out s'.
           finalize (MD5_new storage) = Some (out, s')
           \<and> length out = 16
           \<and> hex out = ''d41d8cd98f00b204e9800998ecf8427e''
           \<and> digest storage [] = Some out
           \<and> digest_string storage [] = Some out"
proof -
  let ?s0 = "MD5_new storage"
  let ?out = "[0xd4, 0x1d, 0x8c, 0xd9, 0x8f, 0x00, 0xb2, 0x04,
               0xe9, 0x80, 0x09, 0x98, 0xec, 0xf8, 0x42, 0x7e :: u8]"
  have wf0: "well_formed ?s0"
    using assms by (rule MD5_new_well_formed)
  have v0: "regs ?s0 = init_regs" "total_len ?s0 = 0" "buffer_len ?s0 = 0" "pending ?s0 = []"
    using MD5_new_view [of storage] by (simp_all add: view_def)
  obtain s' where s': "regs s' = fst (absorb init_regs (pad_bytes 0 0))"
    "finalize ?s0 = Some (digest_bytes (regs s'), reset s')"
    using finalize_char [OF wf0] unfolding v0 by auto
  have f: "finalize ?s0 = Some (?out, reset s')"
    using s'(2) unfolding s'(1) absorb_empty digest_bytes_empty .
  have "digest storage [] = Some (digest_bytes (fst (absorb init_regs (pad_bytes 0 0))))"
    using digest_char [OF assms, of "[]"] by simp
  then have d: "digest storage [] = Some ?out"
    unfolding absorb_empty digest_bytes_empty .
  then have "digest_string storage [] = Some ?out"
    by (simp add: digest_string_def bytes_of_def)
  with f d hex_empty show ?thesis
    by simp
qed

theorem empty_digest_witness:
  "length (buffer zero_storage) = 64
   \<and> (\<exists>out s'.
         finalize (MD5_new zero_storage) = Some (out, s')
         \<and> hex out = ''d41d8cd98f00b204e9800998ecf8427e''
         \<and> digest zero_storage [] = Some out)"
  using empty_digest [OF zero_storage_buffer] zero_storage_buffer by blast

text \<open>
  Claim C1 does not hold of this code. The test vectors of the source file
  itself expect \<open>900150983cd24fb0d6963f7d28e17f72\<close> for \<open>abc\<close>. Whatever the
  storage of the object held before, the one-shot digest of the three bytes
  \<open>abc\<close> succeeds and its rendering by \<^verbatim>\<open>hex\<close> is
  \<open>64d84ee0864bcb879327060ae5737959\<close>, a different value. The block that
  \<^verbatim>\<open>finalize\<close> compresses has the length field one byte too far to the
  right: the padding is one zero byte too long (claim C2), while the
  compression step is the standard one (\<open>abc_rfc_padding\<close>).
\<close>

theorem abc_digest:
  assumes "length (buffer storage) = 64"
  shows "\<exists>out.
           digest_string storage ''abc'' = Some out
           \<and> hex out = ''64d84ee0864bcb879327060ae5737959''
           \<and> hex out \<noteq> ''900150983cd24fb0d6963f7d28e17f72''"
proof -
  let ?out = "[100, 216, 78, 224, 134, 75, 203, 135, 147, 39, 6, 10, 229, 115, 121, 89 :: u8]"
  have "digest storage [97, 98, 99]
          = Some (digest_bytes (fst (absorb init_regs ([97, 98, 99] @ pad_bytes 3 3))))"
    using digest_char [OF assms, of "[97, 98, 99]"] by simp
  then have "digest_string storage ''abc'' = Some ?out"
    unfolding absorb_abc digest_bytes_abc by (simp add: digest_string_def bytes_abc)
  moreover have "hex ?out \<noteq> ''900150983cd24fb0d6963f7d28e17f72''"
    unfolding hex_abc by simp
  ultimately show ?thesis
    using hex_abc by simp
qed

theorem abc_digest_witness:
  "length (buffer zero_storage) = 64
   \<and> (\<exists>out. digest_string zero_storage ''abc'' = Some out
         \<and> hex out = ''64d84ee0864bcb879327060ae5737959''
         \<and> hex out \<noteq> ''900150983cd24fb0d6963f7d28e17f72'')"
  using abc_digest [OF zero_storage_buffer] zero_storage_buffer by blast

end
